theory Spec2Isabelle
  imports Main "HOL-Library.Multiset"
begin

section \<open>Grid pathfinding: the A* engine, its oracle and the proof harness\<close>

text \<open>
  A shallow embedding of \<^verbatim>\<open>pathfinding/astar/assist.py\<close>. Python integers are
  \<^typ>\<open>int\<close>, a grid is a list of rows, a coordinate is a pair of integers, and
  \<^verbatim>\<open>float('inf')\<close> is the extra value \<open>PosInf\<close> of the type of costs. An exception
  is a value \<open>Inl e\<close>; a loop that may run forever is a \<^theory_text>\<open>partial_function\<close>
  into \<open>option\<close>, where \<open>None\<close> stands for not returning.
\<close>

subsection \<open>Values\<close>

type_synonym coord = "int \<times> int"
type_synonym grid = "int list list"

datatype error = IndexError

text \<open>A cost is a Python integer or \<^verbatim>\<open>float('inf')\<close>.\<close>

datatype cost = Num int | PosInf

text \<open>\<^verbatim>\<open>a < b\<close> on costs: every integer is below infinity, infinity is below nothing.\<close>

fun cost_lt :: "cost \<Rightarrow> cost \<Rightarrow> bool" where
  "cost_lt (Num a) (Num b) = (a < b)"
| "cost_lt (Num a) PosInf = True"
| "cost_lt PosInf b = False"

text \<open>\<^verbatim>\<open>a + k\<close> for a cost \<open>a\<close> and an integer \<open>k\<close>.\<close>

fun cost_add :: "cost \<Rightarrow> int \<Rightarrow> cost" where
  "cost_add (Num a) k = Num (a + k)"
| "cost_add PosInf k = PosInf"

text \<open>
  Python's \<^verbatim>\<open>xs[i]\<close>: a negative index counts from the end, an index out of range
  raises \<^verbatim>\<open>IndexError\<close>.
\<close>

definition py_getitem :: "'a list \<Rightarrow> int \<Rightarrow> error + 'a" where
  "py_getitem xs i =
     (if 0 \<le> i \<and> i < int (length xs) then Inr (xs ! nat i)
      else if i < 0 \<and> - int (length xs) \<le> i then Inr (xs ! nat (int (length xs) + i))
      else Inl IndexError)"

text \<open>\<^verbatim>\<open>grid[a][b]\<close>.\<close>

definition grid_at :: "grid \<Rightarrow> int \<Rightarrow> int \<Rightarrow> error + int" where
  "grid_at grid a b =
     (case py_getitem grid a of Inl e \<Rightarrow> Inl e | Inr row \<Rightarrow> py_getitem row b)"

subsection \<open>Nodes\<close>

text \<open>
  \<^verbatim>\<open>class Node\<close>. A node is written only between its creation in \<^verbatim>\<open>get_neighbors\<close>
  and its push on the open set, and \<^verbatim>\<open>get_neighbors\<close> creates fresh nodes at every
  call, so no two live references ever see a write: the parent link is a value.
\<close>

datatype Node = Node
  (node_x: int) (node_y: int) (node_cost: int)
  (node_g: cost) (node_h: int) (node_f: cost) (node_parent: "Node option")

text \<open>\<^verbatim>\<open>Node.__init__\<close>\<close>

definition Node_init :: "int \<Rightarrow> int \<Rightarrow> int \<Rightarrow> Node" where
  "Node_init x y c = Node x y c PosInf 0 PosInf None"

text \<open>\<^verbatim>\<open>Node.__lt__\<close>\<close>

definition Node_lt :: "Node \<Rightarrow> Node \<Rightarrow> bool" where
  "Node_lt a b = cost_lt (node_f a) (node_f b)"

definition node_coord :: "Node \<Rightarrow> coord" where
  "node_coord n = (node_x n, node_y n)"

definition possible_moves :: "(int \<times> int) list" where
  "possible_moves = [(0, 1), (0, -1), (1, 0), (-1, 0)]"

text \<open>The \<^verbatim>\<open>for dx, dy in possible_moves\<close> loop of \<^verbatim>\<open>get_neighbors\<close>.\<close>

fun get_neighbors_loop ::
  "grid \<Rightarrow> int \<Rightarrow> int \<Rightarrow> int \<Rightarrow> int \<Rightarrow> (int \<times> int) list \<Rightarrow> Node list \<Rightarrow> error + Node list"
where
  "get_neighbors_loop grid rows cols x y [] neighbors = Inr neighbors"
| "get_neighbors_loop grid rows cols x y ((dx, dy) # moves) neighbors =
     (let nx = x + dx; ny = y + dy in
      if 0 \<le> nx \<and> nx < rows \<and> 0 \<le> ny \<and> ny < cols then
        (case grid_at grid nx ny of
           Inl e \<Rightarrow> Inl e
         | Inr c \<Rightarrow>
             if c \<noteq> - 1
             then get_neighbors_loop grid rows cols x y moves (neighbors @ [Node_init nx ny c])
             else get_neighbors_loop grid rows cols x y moves neighbors)
      else get_neighbors_loop grid rows cols x y moves neighbors)"

definition get_neighbors :: "grid \<Rightarrow> Node \<Rightarrow> error + Node list" where
  "get_neighbors grid node =
     (case py_getitem grid 0 of
        Inl e \<Rightarrow> Inl e
      | Inr row0 \<Rightarrow>
          get_neighbors_loop grid (int (length grid)) (int (length row0))
            (node_x node) (node_y node) possible_moves [])"

text \<open>\<^verbatim>\<open>get_path\<close>: the coordinates along the parent links, then reversed.\<close>

fun path_back :: "Node \<Rightarrow> coord list" where
  "path_back (Node x y c g h f p) =
     (x, y) # (case p of None \<Rightarrow> [] | Some q \<Rightarrow> path_back q)"

definition get_path :: "Node \<Rightarrow> coord list" where
  "get_path node = rev (path_back node)"

subsection \<open>The binary heap of \<^verbatim>\<open>heapq\<close>\<close>

text \<open>
  \<^verbatim>\<open>heapq\<close> is Python's standard library; the model follows its reference
  implementation, with the comparison \<^verbatim>\<open><\<close> of the items as the parameter \<open>lt\<close>.
\<close>

function siftdown_loop :: "('a \<Rightarrow> 'a \<Rightarrow> bool) \<Rightarrow> 'a list \<Rightarrow> nat \<Rightarrow> 'a \<Rightarrow> nat \<Rightarrow> 'a list" where
  "siftdown_loop lt heap startpos newitem pos =
     (if pos > startpos then
        (let parentpos = (pos - 1) div 2; parent = heap ! parentpos in
         if lt newitem parent
         then siftdown_loop lt (heap[pos := parent]) startpos newitem parentpos
         else heap[pos := newitem])
      else heap[pos := newitem])"
  by pat_completeness auto
termination
  by (relation "measure (\<lambda>(lt, heap, startpos, newitem, pos). pos)") auto

declare siftdown_loop.simps [simp del]

definition siftdown :: "('a \<Rightarrow> 'a \<Rightarrow> bool) \<Rightarrow> 'a list \<Rightarrow> nat \<Rightarrow> nat \<Rightarrow> 'a list" where
  "siftdown lt heap startpos pos = siftdown_loop lt heap startpos (heap ! pos) pos"

text \<open>
  The loop of \<^verbatim>\<open>_siftup\<close>: the smaller child moves up until a leaf is reached; the
  result is the heap and the position of the hole.
\<close>

function siftup_loop :: "('a \<Rightarrow> 'a \<Rightarrow> bool) \<Rightarrow> 'a list \<Rightarrow> nat \<Rightarrow> nat \<Rightarrow> 'a list \<times> nat" where
  "siftup_loop lt heap endpos pos =
     (let childpos = 2 * pos + 1 in
      if childpos < endpos then
        (let rightpos = childpos + 1;
             childpos = (if rightpos < endpos \<and> \<not> lt (heap ! childpos) (heap ! rightpos)
                         then rightpos else childpos)
         in siftup_loop lt (heap[pos := heap ! childpos]) endpos childpos)
      else (heap, pos))"
  by pat_completeness auto
termination
  by (relation "measure (\<lambda>(lt, heap, endpos, pos). endpos - pos)") (auto simp: Let_def)

declare siftup_loop.simps [simp del]

definition siftup :: "('a \<Rightarrow> 'a \<Rightarrow> bool) \<Rightarrow> 'a list \<Rightarrow> nat \<Rightarrow> 'a list" where
  "siftup lt heap pos =
     (let endpos = length heap; startpos = pos; newitem = heap ! pos;
          (heap1, pos1) = siftup_loop lt heap endpos pos
      in siftdown lt (heap1[pos1 := newitem]) startpos pos1)"

definition heappush :: "('a \<Rightarrow> 'a \<Rightarrow> bool) \<Rightarrow> 'a list \<Rightarrow> 'a \<Rightarrow> 'a list" where
  "heappush lt heap item = siftdown lt (heap @ [item]) 0 (length heap)"

definition heappop :: "('a \<Rightarrow> 'a \<Rightarrow> bool) \<Rightarrow> 'a list \<Rightarrow> error + 'a \<times> 'a list" where
  "heappop lt heap =
     (if heap = [] then Inl IndexError
      else
        (let lastelt = last heap; heap1 = butlast heap in
         if heap1 \<noteq> [] then Inr (heap1 ! 0, siftup lt (heap1[0 := lastelt]) 0)
         else Inr (lastelt, heap1)))"

subsection \<open>The engine \<^verbatim>\<open>astar_correct\<close>\<close>

text \<open>The nested function \<^verbatim>\<open>heuristic\<close>, with the end coordinates it closes over.\<close>

definition heuristic :: "coord \<Rightarrow> Node \<Rightarrow> int" where
  "heuristic end_node_coords node =
     \<bar>node_x node - fst end_node_coords\<bar> + \<bar>node_y node - snd end_node_coords\<bar>"

text \<open>The body of \<^verbatim>\<open>for neighbor in get_neighbors(grid, current_node)\<close>.\<close>

definition visit_correct :: "coord \<Rightarrow> coord set \<Rightarrow> Node \<Rightarrow> Node list \<Rightarrow> Node \<Rightarrow> Node list" where
  "visit_correct end_node_coords closed_set current_node open_set neighbor =
     (if (node_x neighbor, node_y neighbor) \<in> closed_set then open_set
      else
        (let new_g = cost_add (node_g current_node) (node_cost neighbor) in
         if cost_lt new_g (node_g neighbor) then
           (let h = heuristic end_node_coords neighbor in
            heappush Node_lt open_set
              (Node (node_x neighbor) (node_y neighbor) (node_cost neighbor)
                 new_g h (cost_add new_g h) (Some current_node)))
         else open_set))"

type_synonym result = "coord list option \<times> cost"

partial_function (option) astar_correct_loop ::
  "grid \<Rightarrow> coord \<Rightarrow> Node list \<Rightarrow> coord set \<Rightarrow> (error + result) option"
where
  "astar_correct_loop grid end_node_coords open_set closed_set =
     (if open_set = [] then Some (Inr (None, PosInf))
      else
        (case heappop Node_lt open_set of
           Inl e \<Rightarrow> Some (Inl e)
         | Inr (current_node, open_set1) \<Rightarrow>
             if (node_x current_node, node_y current_node) = end_node_coords
             then Some (Inr (Some (get_path current_node), node_g current_node))
             else
               (let closed_set1 = insert (node_x current_node, node_y current_node) closed_set in
                case get_neighbors grid current_node of
                  Inl e \<Rightarrow> Some (Inl e)
                | Inr neighbors \<Rightarrow>
                    astar_correct_loop grid end_node_coords
                      (foldl (visit_correct end_node_coords closed_set1 current_node)
                         open_set1 neighbors)
                      closed_set1)))"

declare astar_correct_loop.simps [code]

definition start_node_of :: "coord \<Rightarrow> int \<Rightarrow> Node" where
  "start_node_of start_coords c =
     Node (fst start_coords) (snd start_coords) c (Num 0) 0 (Num 0) None"

definition astar_correct :: "grid \<Rightarrow> coord \<Rightarrow> coord \<Rightarrow> (error + result) option" where
  "astar_correct grid start_coords end_coords =
     (case grid_at grid (fst start_coords) (snd start_coords) of
        Inl e \<Rightarrow> Some (Inl e)
      | Inr c \<Rightarrow> astar_correct_loop grid end_coords [start_node_of start_coords c] {})"

subsection \<open>The oracle \<^verbatim>\<open>find_optimal_cost\<close>\<close>

text \<open>\<^verbatim>\<open><\<close> on the tuples \<^verbatim>\<open>(cost, (x, y))\<close> of the queue: lexicographic.\<close>

definition tuple_lt :: "int \<times> coord \<Rightarrow> int \<times> coord \<Rightarrow> bool" where
  "tuple_lt a b =
     (fst a < fst b \<or>
      (fst a = fst b \<and>
         (fst (snd a) < fst (snd b) \<or>
          (fst (snd a) = fst (snd b) \<and> snd (snd a) < snd (snd b)))))"

type_synonym oracle_state = "(int \<times> coord) list \<times> (coord \<rightharpoonup> int)"

text \<open>\<^verbatim>\<open>visited.get(k, float('inf'))\<close>\<close>

definition visited_get :: "(coord \<rightharpoonup> int) \<Rightarrow> coord \<Rightarrow> cost" where
  "visited_get visited k = (case visited k of None \<Rightarrow> PosInf | Some c \<Rightarrow> Num c)"

text \<open>The \<^verbatim>\<open>for dx, dy in [...]\<close> loop of the oracle, on the queue and the dictionary.\<close>

fun relax_moves ::
  "grid \<Rightarrow> int \<Rightarrow> int \<Rightarrow> int \<Rightarrow> (int \<times> int) list \<Rightarrow> oracle_state \<Rightarrow> error + oracle_state"
where
  "relax_moves grid cost x y [] st = Inr st"
| "relax_moves grid cost x y ((dx, dy) # moves) (queue, visited) =
     (let nx = x + dx; ny = y + dy in
      if 0 \<le> nx \<and> nx < int (length grid) then
        (case py_getitem grid 0 of
           Inl e \<Rightarrow> Inl e
         | Inr row0 \<Rightarrow>
             if 0 \<le> ny \<and> ny < int (length row0) then
               (case grid_at grid nx ny of
                  Inl e \<Rightarrow> Inl e
                | Inr c \<Rightarrow>
                    if c \<noteq> - 1 then
                      (let new_cost = cost + c in
                       if cost_lt (Num new_cost) (visited_get visited (nx, ny))
                       then relax_moves grid cost x y moves
                              (heappush tuple_lt queue (new_cost, (nx, ny)),
                               visited((nx, ny) \<mapsto> new_cost))
                       else relax_moves grid cost x y moves (queue, visited))
                    else relax_moves grid cost x y moves (queue, visited))
             else relax_moves grid cost x y moves (queue, visited))
      else relax_moves grid cost x y moves (queue, visited))"

partial_function (option) find_optimal_cost_loop ::
  "grid \<Rightarrow> coord \<Rightarrow> (int \<times> coord) list \<Rightarrow> (coord \<rightharpoonup> int) \<Rightarrow> (error + cost) option"
where
  "find_optimal_cost_loop grid end queue visited =
     (if queue = [] then Some (Inr PosInf)
      else
        (case heappop tuple_lt queue of
           Inl e \<Rightarrow> Some (Inl e)
         | Inr ((cost, (x, y)), queue1) \<Rightarrow>
             if (x, y) = end then Some (Inr (Num cost))
             else
               (case relax_moves grid cost x y possible_moves (queue1, visited) of
                  Inl e \<Rightarrow> Some (Inl e)
                | Inr (queue2, visited2) \<Rightarrow> find_optimal_cost_loop grid end queue2 visited2)))"

declare find_optimal_cost_loop.simps [code]

definition find_optimal_cost :: "grid \<Rightarrow> coord \<Rightarrow> coord \<Rightarrow> (error + cost) option" where
  "find_optimal_cost grid start end =
     find_optimal_cost_loop grid end [(0, start)] [start \<mapsto> 0]"

subsection \<open>The defective engine \<^verbatim>\<open>astar_buggy\<close>\<close>

text \<open>
  The body of its \<^verbatim>\<open>for neighbor in ...\<close> loop: \<^verbatim>\<open>neighbor.g\<close> is never assigned,
  so it keeps the \<^verbatim>\<open>float('inf')\<close> of \<^verbatim>\<open>Node.__init__\<close>.
\<close>

definition visit_buggy :: "coord \<Rightarrow> coord set \<Rightarrow> Node \<Rightarrow> Node list \<Rightarrow> Node \<Rightarrow> Node list" where
  "visit_buggy end_node_coords closed_set current_node open_set neighbor =
     (if (node_x neighbor, node_y neighbor) \<in> closed_set then open_set
      else
        (let h = heuristic end_node_coords neighbor in
         heappush Node_lt open_set
           (Node (node_x neighbor) (node_y neighbor) (node_cost neighbor)
              (node_g neighbor) h (Num h) (Some current_node))))"

partial_function (option) astar_buggy_loop ::
  "grid \<Rightarrow> coord \<Rightarrow> Node list \<Rightarrow> coord set \<Rightarrow> (error + result) option"
where
  "astar_buggy_loop grid end_node_coords open_set closed_set =
     (if open_set = [] then Some (Inr (None, PosInf))
      else
        (case heappop Node_lt open_set of
           Inl e \<Rightarrow> Some (Inl e)
         | Inr (current_node, open_set1) \<Rightarrow>
             if (node_x current_node, node_y current_node) = end_node_coords
             then Some (Inr (Some (get_path current_node), node_g current_node))
             else
               (let closed_set1 = insert (node_x current_node, node_y current_node) closed_set in
                case get_neighbors grid current_node of
                  Inl e \<Rightarrow> Some (Inl e)
                | Inr neighbors \<Rightarrow>
                    astar_buggy_loop grid end_node_coords
                      (foldl (visit_buggy end_node_coords closed_set1 current_node)
                         open_set1 neighbors)
                      closed_set1)))"

declare astar_buggy_loop.simps [code]

definition astar_buggy :: "grid \<Rightarrow> coord \<Rightarrow> coord \<Rightarrow> (error + result) option" where
  "astar_buggy grid start_coords end_coords =
     (case grid_at grid (fst start_coords) (snd start_coords) of
        Inl e \<Rightarrow> Some (Inl e)
      | Inr c \<Rightarrow> astar_buggy_loop grid end_coords [start_node_of start_coords c] {})"

subsection \<open>The path validator \<^verbatim>\<open>is_valid_path\<close>\<close>

text \<open>
  The loop \<^verbatim>\<open>for i in range(len(path) - 1)\<close> reads the pairs \<^verbatim>\<open>path[i], path[i+1]\<close>
  in order: recursion on the list of coordinates.
\<close>

fun is_valid_path_loop :: "grid \<Rightarrow> coord list \<Rightarrow> error + bool" where
  "is_valid_path_loop grid ((x1, y1) # (x2, y2) # rest) =
     (if \<bar>x1 - x2\<bar> + \<bar>y1 - y2\<bar> > 1 then Inr False
      else
        (case grid_at grid x2 y2 of
           Inl e \<Rightarrow> Inl e
         | Inr c \<Rightarrow>
             if c = - 1 then Inr False
             else is_valid_path_loop grid ((x2, y2) # rest)))"
| "is_valid_path_loop grid path = Inr True"

definition is_valid_path :: "grid \<Rightarrow> coord list \<Rightarrow> error + bool" where
  "is_valid_path grid path = (if path = [] then Inr False else is_valid_path_loop grid path)"

subsection \<open>Text of the log\<close>

text \<open>\<^verbatim>\<open>str\<close> of an integer, of a cost, of a coordinate and of a grid.\<close>

fun str_nat :: "nat \<Rightarrow> string" where
  "str_nat n =
     (if n < 10 then [char_of (48 + n)]
      else str_nat (n div 10) @ [char_of (48 + n mod 10)])"

declare str_nat.simps [simp del]

definition str_int :: "int \<Rightarrow> string" where
  "str_int i = (if i < 0 then ''-'' @ str_nat (nat (- i)) else str_nat (nat i))"

definition str_cost :: "cost \<Rightarrow> string" where
  "str_cost c = (case c of Num i \<Rightarrow> str_int i | PosInf \<Rightarrow> ''inf'')"

definition str_coord :: "coord \<Rightarrow> string" where
  "str_coord p = ''('' @ str_int (fst p) @ '', '' @ str_int (snd p) @ '')''"

fun join_comma :: "string list \<Rightarrow> string" where
  "join_comma [] = []"
| "join_comma [s] = s"
| "join_comma (s # t # ss) = s @ '', '' @ join_comma (t # ss)"

definition str_row :: "int list \<Rightarrow> string" where
  "str_row row = ''['' @ join_comma (map str_int row) @ '']''"

definition str_grid :: "grid \<Rightarrow> string" where
  "str_grid grid = ''['' @ join_comma (map str_row grid) @ '']''"

text \<open>The check mark U+2705 that ends two of the messages, as its UTF-8 bytes.\<close>

definition check_mark :: string where
  "check_mark = [char_of (226 :: nat), char_of (156 :: nat), char_of (133 :: nat)]"

subsection \<open>\<^verbatim>\<open>Property\<close> and \<^verbatim>\<open>Proof\<close>\<close>

record input_data =
  td_grid :: grid
  td_optimal_cost :: cost
  td_start :: coord
  td_end :: coord

record property =
  name :: string
  check_function :: "input_data \<Rightarrow> result \<Rightarrow> error + bool"

text \<open>\<^verbatim>\<open>Property.check\<close>\<close>

definition check :: "property \<Rightarrow> input_data \<Rightarrow> result \<Rightarrow> error + bool" where
  "check prop input_data output_data = check_function prop input_data output_data"

type_synonym algorithm = "grid \<Rightarrow> coord \<Rightarrow> coord \<Rightarrow> (error + result) option"

text \<open>The fields of a \<^verbatim>\<open>Proof\<close> object.\<close>

record proof_obj =
  algorithm :: algorithm
  properties :: "property list"
  log :: "string list"

text \<open>\<^verbatim>\<open>Proof.log_step\<close>\<close>

definition log_step :: "proof_obj \<Rightarrow> string \<Rightarrow> string \<Rightarrow> proof_obj" where
  "log_step self message status =
     self\<lparr>log := log self @ [''['' @ status @ ''] '' @ message]\<rparr>"

text \<open>\<^verbatim>\<open>Proof.get_log\<close>\<close>

fun join_lines :: "string list \<Rightarrow> string" where
  "join_lines [] = []"
| "join_lines [s] = s"
| "join_lines (s # t # ss) = s @ [char_of (10 :: nat)] @ join_lines (t # ss)"

definition get_log :: "proof_obj \<Rightarrow> string" where
  "get_log self = join_lines (log self)"

subsection \<open>\<^verbatim>\<open>AStarProof\<close>\<close>

definition is_optimal_prop :: property where
  "is_optimal_prop =
     \<lparr>name = ''Optimality Property'',
      check_function = (\<lambda>input_data output_data.
         Inr (snd output_data = td_optimal_cost input_data))\<rparr>"

text \<open>
  \<^verbatim>\<open>is_valid_path(grid, None)\<close> returns \<^verbatim>\<open>False\<close> at \<^verbatim>\<open>if not path\<close>, like the empty
  list.
\<close>

definition is_valid_prop :: property where
  "is_valid_prop =
     \<lparr>name = ''Validity Property'',
      check_function = (\<lambda>input_data output_data.
         case fst output_data of
           None \<Rightarrow> Inr False
         | Some path \<Rightarrow> is_valid_path (td_grid input_data) path)\<rparr>"

text \<open>\<^verbatim>\<open>AStarProof.__init__\<close>\<close>

definition AStarProof :: "algorithm \<Rightarrow> proof_obj" where
  "AStarProof algorithm_to_prove =
     \<lparr>algorithm = algorithm_to_prove,
      properties = [is_optimal_prop, is_valid_prop],
      log = []\<rparr>"

text \<open>\<^verbatim>\<open>AStarProof.run_base_case\<close>: the returned value and the object with its new log.\<close>

definition run_base_case :: "proof_obj \<Rightarrow> (error + bool \<times> proof_obj) option" where
  "run_base_case self =
     (let self1 = log_step self ''--- Proving Base Case: Start == End ---'' ''INFO'';
          grid = [[1, 1], [1, 1]];
          start = (0, 0); end = (0, 0)
      in case algorithm self1 grid start end of
           None \<Rightarrow> None
         | Some (Inl e) \<Rightarrow> Some (Inl e)
         | Some (Inr (path, cost)) \<Rightarrow>
             if path \<noteq> Some [(0, 0)] \<or> cost \<noteq> Num 0
             then Some (Inr (False, log_step self1 ''Base case failed: start == end.'' ''FAIL''))
             else Some (Inr (True,
                    log_step self1 (''Base case holds. '' @ check_mark) ''SUCCESS'')))"

text \<open>
  \<^verbatim>\<open>random.randint\<close> is the standard library's; it is the parameter \<open>randint\<close>, a
  function of the generator's state \<open>'r\<close>.
\<close>

type_synonym 'r randint = "int \<Rightarrow> int \<Rightarrow> 'r \<Rightarrow> int \<times> 'r"

text \<open>\<^verbatim>\<open>[random.randint(1, 10) for _ in range(grid_size)]\<close>\<close>

fun random_row :: "'r randint \<Rightarrow> nat \<Rightarrow> 'r \<Rightarrow> int list \<times> 'r" where
  "random_row randint 0 rng = ([], rng)"
| "random_row randint (Suc n) rng =
     (let (v, rng1) = randint 1 10 rng;
          (vs, rng2) = random_row randint n rng1
      in (v # vs, rng2))"

text \<open>\<^verbatim>\<open>[[...] for _ in range(grid_size)]\<close>, with \<open>k\<close> rows still to make.\<close>

fun random_grid :: "'r randint \<Rightarrow> int \<Rightarrow> nat \<Rightarrow> 'r \<Rightarrow> grid \<times> 'r" where
  "random_grid randint grid_size 0 rng = ([], rng)"
| "random_grid randint grid_size (Suc k) rng =
     (let (row, rng1) = random_row randint (nat grid_size) rng;
          (rows, rng2) = random_grid randint grid_size k rng1
      in (row # rows, rng2))"

text \<open>The loop \<^verbatim>\<open>for prop in self.properties\<close> of trial \<open>i\<close>.\<close>

fun check_properties ::
  "property list \<Rightarrow> input_data \<Rightarrow> result \<Rightarrow> nat \<Rightarrow> proof_obj \<Rightarrow> error + bool \<times> proof_obj"
where
  "check_properties [] test_data result_data i self = Inr (True, self)"
| "check_properties (prop # props) test_data result_data i self =
     (case check prop test_data result_data of
        Inl e \<Rightarrow> Inl e
      | Inr ok \<Rightarrow>
          if \<not> ok then
            (let self1 = log_step self
                   (''Test '' @ str_nat (i + 1) @ '' failed for '' @ name prop @ ''.'') ''FAIL'';
                 self2 = log_step self1 (''Grid: '' @ str_grid (td_grid test_data)) ''INFO'';
                 self3 = log_step self2
                   (''Start: '' @ str_coord (td_start test_data) @
                    '', End: '' @ str_coord (td_end test_data)) ''INFO'';
                 self4 = log_step self3
                   (''Optimal Cost: '' @ str_cost (td_optimal_cost test_data) @
                    '', A* Cost: '' @ str_cost (snd result_data)) ''INFO''
             in Inr (False, self4))
          else check_properties props test_data result_data i self)"

text \<open>
  The loop \<^verbatim>\<open>for i in range(num_tests)\<close>, on the indices still to run. The Boolean
  is \<open>False\<close> when a trial returned \<^verbatim>\<open>False\<close>, and \<open>True\<close> when the loop ran to its end.
\<close>

fun run_trials ::
  "'r randint \<Rightarrow> nat list \<Rightarrow> proof_obj \<Rightarrow> 'r \<Rightarrow> (error + bool \<times> proof_obj \<times> 'r) option"
where
  "run_trials randint [] self rng = Some (Inr (True, self, rng))"
| "run_trials randint (i # is) self rng =
     (let (grid_size, rng1) = randint 5 15 rng;
          (grid, rng2) = random_grid randint grid_size (nat grid_size) rng1;
          start = (0, 0);
          end = (grid_size - 1, grid_size - 1)
      in case find_optimal_cost grid start end of
           None \<Rightarrow> None
         | Some (Inl e) \<Rightarrow> Some (Inl e)
         | Some (Inr optimal_cost) \<Rightarrow>
             (case algorithm self grid start end of
                None \<Rightarrow> None
              | Some (Inl e) \<Rightarrow> Some (Inl e)
              | Some (Inr (astar_path, astar_cost)) \<Rightarrow>
                  (let test_data = \<lparr>td_grid = grid, td_optimal_cost = optimal_cost,
                                    td_start = start, td_end = end\<rparr>;
                       result_data = (astar_path, astar_cost)
                   in if astar_path = None then
                        Some (Inr (False,
                          log_step self
                            (''Test '' @ str_nat (i + 1) @ '' failed: No path found.'') ''FAIL'',
                          rng2))
                      else
                        (case check_properties (properties self) test_data result_data i self of
                           Inl e \<Rightarrow> Some (Inl e)
                         | Inr (ok, self1) \<Rightarrow>
                             if \<not> ok then Some (Inr (False, self1, rng2))
                             else run_trials randint is self1 rng2))))"

text \<open>\<^verbatim>\<open>AStarProof.run_inductive_step\<close>\<close>

definition run_inductive_step ::
  "'r randint \<Rightarrow> proof_obj \<Rightarrow> int \<Rightarrow> 'r \<Rightarrow> (error + bool \<times> proof_obj \<times> 'r) option"
where
  "run_inductive_step randint self num_tests rng =
     (let self1 = log_step self ''--- Proving Inductive Step ---'' ''INFO'';
          self2 = log_step self1
            ''Hypothesis: Assume A* is correct for simple grids.'' ''INFO'';
          self3 = log_step self2
            (''Verifying for '' @ str_int num_tests @ '' random grids...'') ''INFO''
      in case run_trials randint [0 ..< nat num_tests] self3 rng of
           None \<Rightarrow> None
         | Some (Inl e) \<Rightarrow> Some (Inl e)
         | Some (Inr (ok, self4, rng1)) \<Rightarrow>
             if \<not> ok then Some (Inr (False, self4, rng1))
             else Some (Inr (True,
                    log_step self4
                      (''All '' @ str_int num_tests @
                       '' property checks passed. Inductive step holds. '' @ check_mark)
                      ''SUCCESS'',
                    rng1)))"

subsection \<open>Words of the specification\<close>

text \<open>A coordinate is in bounds when \<^verbatim>\<open>grid[x][y]\<close> reads a cell without wrapping.\<close>

definition in_bounds :: "grid \<Rightarrow> coord \<Rightarrow> bool" where
  "in_bounds grid p =
     (0 \<le> fst p \<and> fst p < int (length grid) \<and>
      0 \<le> snd p \<and> snd p < int (length (grid ! nat (fst p))))"

text \<open>The cell a coordinate names is the impassable sentinel.\<close>

definition impassable :: "grid \<Rightarrow> coord \<Rightarrow> bool" where
  "impassable grid p = (grid_at grid (fst p) (snd p) = Inr (- 1))"

definition manhattan :: "coord \<Rightarrow> coord \<Rightarrow> int" where
  "manhattan p q = \<bar>fst p - fst q\<bar> + \<bar>snd p - snd q\<bar>"

text \<open>The value of an in-bounds cell.\<close>

definition cell :: "grid \<Rightarrow> coord \<Rightarrow> int" where
  "cell grid p = grid ! nat (fst p) ! nat (snd p)"

text \<open>One move: to a 4-adjacent cell that is in bounds and passable.\<close>

definition step :: "grid \<Rightarrow> coord \<Rightarrow> coord \<Rightarrow> bool" where
  "step grid p q = (manhattan p q = 1 \<and> in_bounds grid q \<and> cell grid q \<noteq> - 1)"

text \<open>What \<^verbatim>\<open>get_neighbors\<close> appends for one of the four moves.\<close>

definition neighbor_nodes :: "grid \<Rightarrow> int \<Rightarrow> int \<Rightarrow> int \<Rightarrow> int \<Rightarrow> int \<times> int \<Rightarrow> Node list" where
  "neighbor_nodes grid rows cols x y d =
     (if 0 \<le> x + fst d \<and> x + fst d < rows \<and> 0 \<le> y + snd d \<and> y + snd d < cols then
        (case grid_at grid (x + fst d) (y + snd d) of
           Inl e \<Rightarrow> []
         | Inr c \<Rightarrow> if c \<noteq> - 1 then [Node_init (x + fst d) (y + snd d) c] else [])
      else [])"

text \<open>The chain of parents of a node is a walk from the start.\<close>

definition node_ok :: "grid \<Rightarrow> coord \<Rightarrow> Node \<Rightarrow> bool" where
  "node_ok grid start n =
     (last (path_back n) = start \<and> successively (\<lambda>q p. step grid p q) (path_back n))"


definition cells :: "grid \<Rightarrow> coord set" where
  "cells grid = {p. 0 \<le> fst p \<and> fst p < int (length grid) \<and>
                    0 \<le> snd p \<and> snd p < int (length (grid ! 0))}"

text \<open>The child node that \<open>visit_correct\<close> pushes for a neighbour.\<close>

definition child_correct :: "coord \<Rightarrow> Node \<Rightarrow> Node \<Rightarrow> Node" where
  "child_correct e cur m =
     Node (node_x m) (node_y m) (node_cost m) (cost_add (node_g cur) (node_cost m))
       (heuristic e m)
       (cost_add (cost_add (node_g cur) (node_cost m)) (heuristic e m)) (Some cur)"

definition pushed_correct :: "coord set \<Rightarrow> Node \<Rightarrow> Node \<Rightarrow> bool" where
  "pushed_correct closed cur m =
     ((node_x m, node_y m) \<notin> closed \<and>
      cost_lt (cost_add (node_g cur) (node_cost m)) (node_g m))"

definition term_inv :: "grid \<Rightarrow> coord set \<Rightarrow> Node list \<Rightarrow> coord set \<Rightarrow> bool" where
  "term_inv grid D open_set closed =
     (finite D \<and> cells grid \<subseteq> D \<and> closed \<subseteq> D \<and>
      (\<forall>n \<in> set open_set.
         (node_x n, node_y n) \<in> D \<and> distinct (path_back n) \<and>
         set (tl (path_back n)) \<subseteq> closed))"

definition weight :: "nat \<Rightarrow> Node \<Rightarrow> nat" where
  "weight N n = 5 ^ (N - length (path_back n))"

definition potential :: "nat \<Rightarrow> Node list \<Rightarrow> nat" where
  "potential N open_set = sum_list (map (weight N) open_set)"

definition rect :: "grid \<Rightarrow> bool" where
  "rect grid = (grid \<noteq> [] \<and> (\<forall>row \<in> set grid. length row = length (grid ! 0)))"

definition reachable :: "grid \<Rightarrow> coord \<Rightarrow> coord \<Rightarrow> bool" where
  "reachable grid s e = (\<exists>l. l \<noteq> [] \<and> hd l = s \<and> last l = e \<and> successively (step grid) l)"

definition comp_inv :: "grid \<Rightarrow> coord \<Rightarrow> coord \<Rightarrow> Node list \<Rightarrow> coord set \<Rightarrow> bool" where
  "comp_inv grid s e open_set closed =
     (e \<notin> closed \<and>
      (s \<in> closed \<or> (\<exists>n \<in> set open_set. (node_x n, node_y n) = s)) \<and>
      (\<forall>n \<in> set open_set. node_g n \<noteq> PosInf) \<and>
      (\<forall>v \<in> closed. \<forall>u. step grid v u \<longrightarrow>
         u \<in> closed \<or> (\<exists>m \<in> set open_set. (node_x m, node_y m) = u)))"

definition move :: "coord \<Rightarrow> int \<times> int \<Rightarrow> coord" where
  "move p d = (fst p + fst d, snd p + snd d)"

text \<open>One pass of the oracle's inner loop on a rectangular grid, where no read fails.\<close>

definition relax_pure :: "grid \<Rightarrow> int \<Rightarrow> coord \<Rightarrow> oracle_state \<Rightarrow> int \<times> int \<Rightarrow> oracle_state" where
  "relax_pure grid c0 p st d =
     (let u = move p d; nc = c0 + cell grid u in
      if step grid p u \<and> cost_lt (Num nc) (visited_get (snd st) u)
      then (heappush tuple_lt (fst st) (nc, u), (snd st)(u \<mapsto> nc))
      else st)"

definition is_walk :: "grid \<Rightarrow> coord \<Rightarrow> coord \<Rightarrow> coord list \<Rightarrow> bool" where
  "is_walk grid s v l = (l \<noteq> [] \<and> hd l = s \<and> last l = v \<and> successively (step grid) l)"

definition walk_cost :: "grid \<Rightarrow> coord list \<Rightarrow> int" where
  "walk_cost grid l = sum_list (map (cell grid) (tl l))"

definition relaxed :: "grid \<Rightarrow> int \<Rightarrow> coord \<Rightarrow> oracle_state \<Rightarrow> oracle_state \<Rightarrow> bool" where
  "relaxed grid c0 p st st' =
     (set (fst st) \<subseteq> set (fst st') \<and>
      (\<forall>ent \<in> set (fst st'). ent \<in> set (fst st) \<or>
           (\<exists>u. ent = (c0 + cell grid u, u) \<and> step grid p u)) \<and>
      (\<forall>u c. snd st u = Some c \<longrightarrow> (\<exists>c'. snd st' u = Some c' \<and> c' \<le> c)) \<and>
      (\<forall>u c'. snd st' u = Some c' \<longrightarrow> snd st u = Some c' \<or>
           ((c', u) \<in> set (fst st') \<and> c' = c0 + cell grid u \<and> step grid p u)))"

definition oinv :: "grid \<Rightarrow> coord \<Rightarrow> coord \<Rightarrow> (int \<times> coord) list \<Rightarrow> (coord \<rightharpoonup> int) \<Rightarrow> bool" where
  "oinv grid s e queue visited =
     ((\<forall>ent \<in> set queue. \<exists>l. is_walk grid s (snd ent) l \<and> walk_cost grid l = fst ent) \<and>
      (\<exists>c \<le> 0. visited s = Some c) \<and>
      (\<forall>v c. visited v = Some c \<longrightarrow>
         (c, v) \<in> set queue \<or>
         (v \<noteq> e \<and> (\<forall>u. step grid v u \<longrightarrow> (\<exists>c'. visited u = Some c' \<and> c' \<le> c + cell grid u)))))"

definition nonneg :: "grid \<Rightarrow> bool" where
  "nonneg grid = (\<forall>row \<in> set grid. \<forall>c \<in> set row. - 1 \<le> c)"

definition unseen :: "grid \<Rightarrow> (coord \<rightharpoonup> int) \<Rightarrow> nat" where
  "unseen grid vis = card {u \<in> cells grid. vis u = None}"

definition total :: "grid \<Rightarrow> (coord \<rightharpoonup> int) \<Rightarrow> nat" where
  "total grid vis = (\<Sum>u \<in> cells grid. case vis u of None \<Rightarrow> 0 | Some c \<Rightarrow> nat c)"

definition okey :: "grid \<Rightarrow> oracle_state \<Rightarrow> nat \<times> nat" where
  "okey grid st = (unseen grid (snd st), total grid (snd st))"

definition key_less :: "((nat \<times> nat) \<times> (nat \<times> nat)) set" where
  "key_less = less_than <*lex*> less_than"

definition oracle_less :: "grid \<Rightarrow> (oracle_state \<times> oracle_state) set" where
  "oracle_less grid =
     inv_image (key_less <*lex*> less_than) (\<lambda>st. (okey grid st, length (fst st)))"

definition neg_grid :: grid where
  "neg_grid = [[- 2, - 2, - 1, 1]]"

text \<open>On \<open>neg_grid\<close> the queue of the oracle always holds one entry, on one of the two
  cells of cost \<open>-2\<close>, cheaper than every recorded cost.\<close>

definition bouncing :: "(int \<times> coord) list \<Rightarrow> (coord \<rightharpoonup> int) \<Rightarrow> bool" where
  "bouncing queue visited =
     (\<exists>c v. queue = [(c, v)] \<and> (v = (0, 0) \<or> v = (0, 1)) \<and>
            (\<forall>u c'. visited u = Some c' \<longrightarrow> c \<le> c'))"

definition heap_ok :: "('a \<Rightarrow> 'a \<Rightarrow> bool) \<Rightarrow> 'a list \<Rightarrow> bool" where
  "heap_ok lt h = (\<forall>i. 0 < i \<and> i < length h \<longrightarrow> \<not> lt (h ! i) (h ! ((i - 1) div 2)))"

definition weak_order :: "('a \<Rightarrow> 'a \<Rightarrow> bool) \<Rightarrow> bool" where
  "weak_order lt =
     ((\<forall>a b. lt a b \<longrightarrow> \<not> lt b a) \<and> (\<forall>a b c. \<not> lt b a \<longrightarrow> \<not> lt c b \<longrightarrow> \<not> lt c a))"

definition pos_cells :: "grid \<Rightarrow> bool" where
  "pos_cells grid = (\<forall>row \<in> set grid. \<forall>c \<in> set row. c = - 1 \<or> 1 \<le> c)"

text \<open>A node of the open set stands for a walk from the start, with its cost as \<open>g\<close>
  and \<open>f = g + h\<close>; the start node alone has \<open>f = 0\<close>.\<close>

definition node_good :: "grid \<Rightarrow> coord \<Rightarrow> coord \<Rightarrow> Node \<Rightarrow> bool" where
  "node_good grid s e n =
     (\<exists>l. is_walk grid s (node_x n, node_y n) l \<and> node_g n = Num (walk_cost grid l) \<and>
          (\<exists>f. node_f n = Num f \<and> f \<le> walk_cost grid l + manhattan (node_x n, node_y n) e) \<and>
          (node_f n = Num (walk_cost grid l + manhattan (node_x n, node_y n) e) \<or>
           walk_cost grid l = 0))"

definition ainv :: "grid \<Rightarrow> coord \<Rightarrow> coord \<Rightarrow> Node list \<Rightarrow> coord set \<Rightarrow> bool" where
  "ainv grid s e open_set closed =
     ((\<forall>n \<in> set open_set. node_good grid s e n) \<and>
      e \<notin> closed \<and>
      (s \<in> closed \<or> (\<exists>n \<in> set open_set. (node_x n, node_y n) = s \<and> node_g n = Num 0)) \<and>
      (\<forall>v \<in> closed. \<forall>l u. is_walk grid s v l \<longrightarrow> step grid v u \<longrightarrow>
         u \<in> closed \<or>
         (\<exists>m \<in> set open_set. (node_x m, node_y m) = u \<and>
            (\<exists>gm. node_g m = Num gm \<and> gm \<le> walk_cost grid l + cell grid u))))"

section \<open>Properties\<close>

subsection \<open>Start equals end\<close>

lemma grid_at_in_bounds:
  "in_bounds grid p \<Longrightarrow> grid_at grid (fst p) (snd p) = Inr (grid ! nat (fst p) ! nat (snd p))"
  by (simp add: in_bounds_def grid_at_def py_getitem_def)

lemma heappop_single: "heappop lt [a] = Inr (a, [])"
  by (simp add: heappop_def)

lemma astar_correct_same:
  "in_bounds grid s \<Longrightarrow> astar_correct grid s s = Some (Inr (Some [s], Num 0))"
  by (simp add: astar_correct_def grid_at_in_bounds astar_correct_loop.simps [of _ _ "[a]" for a]
        heappop_single start_node_of_def get_path_def)

lemma find_optimal_cost_same: "find_optimal_cost grid s s = Some (Inr (Num 0))"
  by (cases s)
    (simp add: find_optimal_cost_def find_optimal_cost_loop.simps [of _ _ "[a]" for a]
       heappop_single)

lemma run_base_case_True_iff:
  "(\<exists>self'. run_base_case self = Some (Inr (True, self'))) \<longleftrightarrow>
   algorithm self [[1, 1], [1, 1]] (0, 0) (0, 0) = Some (Inr (Some [(0, 0)], Num 0))"
  by (auto simp: run_base_case_def Let_def log_step_def split: option.splits sum.splits)

text \<open>
  C4. For every grid and every in-bounds coordinate \<open>s\<close>, \<open>astar_correct grid s s\<close>
  returns the one-element path \<open>[s]\<close> with cost 0; and \<open>run_base_case\<close> returns
  \<open>True\<close> exactly when the algorithm under test returns \<open>([(0, 0)], 0)\<close> on the
  2x2 grid of ones with start and end \<open>(0, 0)\<close>.
\<close>

theorem astar_correct_base_case:
  assumes "in_bounds grid s"
  shows "astar_correct grid s s = Some (Inr (Some [s], Num 0)) \<and>
         ((\<exists>self'. run_base_case self = Some (Inr (True, self'))) \<longleftrightarrow>
          algorithm self [[1, 1], [1, 1]] (0, 0) (0, 0) = Some (Inr (Some [(0, 0)], Num 0)))"
  using assms by (simp add: astar_correct_same run_base_case_True_iff)

theorem astar_correct_base_case_witness:
  "in_bounds [[1, 1], [1, 1]] (0, 0) \<and>
   astar_correct [[1, 1], [1, 1]] (0, 0) (0, 0) = Some (Inr (Some [(0, 0)], Num 0)) \<and>
   (\<exists>self'. run_base_case (AStarProof astar_correct) = Some (Inr (True, self')))"
proof -
  have b: "in_bounds [[1, 1], [1, 1]] (0, 0)"
    by (simp add: in_bounds_def)
  have a: "algorithm (AStarProof astar_correct) = astar_correct"
    by (simp add: AStarProof_def)
  show ?thesis
    using b astar_correct_base_case [OF b, of "AStarProof astar_correct"] by (simp add: a)
qed

text \<open>
  C9. Neither the oracle nor the engine looks at the start cell's passability: for every
  grid and every in-bounds \<open>s\<close>, \<open>find_optimal_cost grid s s\<close> returns 0 and
  \<open>astar_correct grid s s\<close> returns \<open>([s], 0)\<close>, whatever the cell at \<open>s\<close> holds, the
  sentinel \<open>-1\<close> included.
\<close>

theorem start_cell_never_validated:
  assumes "in_bounds grid s"
  shows "find_optimal_cost grid s s = Some (Inr (Num 0)) \<and>
         astar_correct grid s s = Some (Inr (Some [s], Num 0))"
  using assms by (simp add: astar_correct_same find_optimal_cost_same)

theorem start_cell_never_validated_witness:
  "in_bounds [[- 1]] (0, 0) \<and> impassable [[- 1]] (0, 0) \<and>
   find_optimal_cost [[- 1]] (0, 0) (0, 0) = Some (Inr (Num 0)) \<and>
   astar_correct [[- 1]] (0, 0) (0, 0) = Some (Inr (Some [(0, 0)], Num 0))"
proof -
  have b: "in_bounds [[- 1]] (0, 0)"
    by (simp add: in_bounds_def)
  have i: "impassable [[- 1]] (0, 0)"
    by (simp add: impassable_def grid_at_def py_getitem_def)
  show ?thesis
    using b i start_cell_never_validated [OF b] by simp
qed

subsection \<open>The 5x5 grid of ones\<close>

lemma find_optimal_cost_ones5:
  "find_optimal_cost (replicate 5 (replicate 5 1)) (0, 0) (4, 4) = Some (Inr (Num 8))"
  by code_simp

lemma astar_correct_ones5:
  "astar_correct (replicate 5 (replicate 5 1)) (0, 0) (4, 4) =
     Some (Inr (Some [(0, 0), (1, 0), (2, 0), (2, 1), (3, 1), (3, 2), (4, 2), (4, 3), (4, 4)],
                Num 8))"
  by code_simp

lemma astar_buggy_ones5:
  "astar_buggy (replicate 5 (replicate 5 1)) (0, 0) (4, 4) =
     Some (Inr (Some [(0, 0), (0, 1), (0, 2), (0, 3), (0, 4), (1, 4), (2, 4), (3, 4), (4, 4)],
                PosInf))"
  by code_simp

text \<open>
  C7. On the 5x5 grid whose cells all cost 1, from \<open>(0, 0)\<close> to \<open>(4, 4)\<close>,
  \<open>astar_correct\<close> returns cost 8 (the Manhattan distance: the start cell's own cost is
  not counted) and \<open>find_optimal_cost\<close> returns 8 as well.
\<close>

theorem ones5_cost_8:
  "(\<exists>path. astar_correct (replicate 5 (replicate 5 1)) (0, 0) (4, 4) =
             Some (Inr (Some path, Num 8))) \<and>
   find_optimal_cost (replicate 5 (replicate 5 1)) (0, 0) (4, 4) = Some (Inr (Num 8)) \<and>
   manhattan (0, 0) (4, 4) = 8"
  by (simp add: astar_correct_ones5 find_optimal_cost_ones5 manhattan_def)

text \<open>
  C8. There is a fully passable square grid of side at least 5, with cell costs between 1
  and 10, on which \<open>astar_buggy\<close>, from one corner to the opposite one, returns a cost
  that differs from the cost \<open>find_optimal_cost\<close> returns.
\<close>

theorem astar_buggy_not_optimal:
  "\<exists>grid n. 5 \<le> n \<and> length grid = n \<and>
     list_all (\<lambda>row. length row = n \<and> list_all (\<lambda>c. 1 \<le> c \<and> c \<le> 10) row) grid \<and>
     (\<exists>path c c'.
        astar_buggy grid (0, 0) (int n - 1, int n - 1) = Some (Inr (path, c)) \<and>
        find_optimal_cost grid (0, 0) (int n - 1, int n - 1) = Some (Inr c') \<and>
        c \<noteq> c')"
proof -
  have "list_all (\<lambda>row. length row = 5 \<and> list_all (\<lambda>c. 1 \<le> c \<and> c \<le> 10) row)
          (replicate 5 (replicate 5 (1::int)))"
    by (simp add: list_all_iff)
  then show ?thesis
    using astar_buggy_ones5 find_optimal_cost_ones5
    by (intro exI [of _ "replicate 5 (replicate 5 1)"] exI [of _ "5::nat"]) simp
qed

subsection \<open>The path validator\<close>

text \<open>
  C5. \<open>is_valid_path\<close> is meant to reject a path with a pair of consecutive coordinates
  that is not exactly one Manhattan step apart, and a path with an impassable cell at any
  position, the first included. On the code both are accepted: a repeated coordinate
  (distance 0) passes the test \<^verbatim>\<open>> 1\<close>, and the loop reads only the cell of the second
  coordinate of each pair, so the first cell of the path is never read.
\<close>

theorem is_valid_path_accepts:
  "in_bounds [[- 1, 1]] (0, 0) \<and> in_bounds [[- 1, 1]] (0, 1) \<and>
   impassable [[- 1, 1]] (0, 0) \<and>
   is_valid_path [[- 1, 1]] [(0, 0), (0, 1)] = Inr True \<and>
   manhattan (0, 1) (0, 1) \<noteq> 1 \<and>
   is_valid_path [[- 1, 1]] [(0, 1), (0, 1)] = Inr True"
  by (simp add: in_bounds_def impassable_def is_valid_path_def grid_at_def py_getitem_def
        manhattan_def)

subsection \<open>The inductive step and an absent path\<close>

lemma run_trials_append:
  "run_trials randint xs self rng = Some (Inr (True, self1, rng1)) \<Longrightarrow>
   run_trials randint (xs @ ys) self rng = run_trials randint ys self1 rng1"
proof (induction xs arbitrary: self rng)
  case Nil
  then show ?case by simp
next
  case (Cons i xs)
  then show ?case
    by (auto simp: Let_def split: prod.splits option.splits sum.splits if_splits)
qed

lemma run_trials_absent:
  assumes "randint 5 15 rng = (grid_size, rng1)"
    and "random_grid randint grid_size (nat grid_size) rng1 = (grid, rng2)"
    and "find_optimal_cost grid (0, 0) (grid_size - 1, grid_size - 1) = Some (Inr optimal_cost)"
    and "algorithm self grid (0, 0) (grid_size - 1, grid_size - 1) = Some (Inr (None, c))"
  shows "run_trials randint (i # is) self rng =
           Some (Inr (False,
             log_step self (''Test '' @ str_nat (i + 1) @ '' failed: No path found.'') ''FAIL'',
             rng2))"
  using assms by (simp add: Let_def)

text \<open>
  C10. \<open>run_inductive_step\<close> treats an absent path as a hard failure. Let the first
  \<open>k\<close> trials pass, and let the algorithm under test return a \<open>None\<close> path on the grid
  of trial \<open>k\<close>. Then the run returns \<open>False\<close>, whatever cost the oracle returned for
  that grid (finite or infinite) and whatever the registered properties are: nothing is
  assumed of them, and the only line added to the log is "No path found".
\<close>

theorem absent_path_halts_run:
  assumes "run_trials randint [0 ..< k]
             (log_step
                (log_step (log_step self ''--- Proving Inductive Step ---'' ''INFO'')
                   ''Hypothesis: Assume A* is correct for simple grids.'' ''INFO'')
                (''Verifying for '' @ str_int num_tests @ '' random grids...'') ''INFO'')
             rng0 = Some (Inr (True, self1, rng))"
    and "k < nat num_tests"
    and "randint 5 15 rng = (grid_size, rng1)"
    and "random_grid randint grid_size (nat grid_size) rng1 = (grid, rng2)"
    and "find_optimal_cost grid (0, 0) (grid_size - 1, grid_size - 1) = Some (Inr optimal_cost)"
    and "algorithm self1 grid (0, 0) (grid_size - 1, grid_size - 1) = Some (Inr (None, c))"
  shows "run_inductive_step randint self num_tests rng0 =
           Some (Inr (False,
             log_step self1 (''Test '' @ str_nat (k + 1) @ '' failed: No path found.'') ''FAIL'',
             rng2))"
proof -
  have "[0 ..< nat num_tests] = [0 ..< k] @ k # [Suc k ..< nat num_tests]"
    using assms(2) by (metis le0 upt_add_eq_append upt_conv_Cons le_add_diff_inverse less_imp_le)
  then show ?thesis
    using run_trials_append [OF assms(1)] run_trials_absent [OF assms(3-6)]
    by (simp add: run_inductive_step_def Let_def)
qed


lemma random_grid_const:
  "random_grid (\<lambda>a b (r::unit). (a, r)) 5 (nat 5) () = (replicate 5 (replicate 5 1), ())"
  by code_simp

theorem absent_path_halts_run_witness:
  "\<exists>self'. run_inductive_step (\<lambda>a b (r::unit). (a, r))
      (AStarProof (\<lambda>grid s e. Some (Inr (None, PosInf)))) 1 () = Some (Inr (False, self', ()))"
proof -
  let ?alg = "\<lambda>(grid::grid) (s::coord) (e::coord). Some (Inr (None, PosInf)) :: (error + result) option"
  let ?rand = "\<lambda>(a::int) (b::int) (r::unit). (a, r)"
  let ?self3 = "log_step
                (log_step (log_step (AStarProof ?alg) ''--- Proving Inductive Step ---'' ''INFO'')
                   ''Hypothesis: Assume A* is correct for simple grids.'' ''INFO'')
                (''Verifying for '' @ str_int 1 @ '' random grids...'') ''INFO''"
  have h1: "run_trials ?rand [0 ..< 0] ?self3 () = Some (Inr (True, ?self3, ()))"
    by simp
  have h2: "0 < nat 1" by simp
  have h3: "?rand 5 15 () = (5, ())" by simp
  have h5: "find_optimal_cost (replicate 5 (replicate 5 1)) (0, 0) (5 - 1, 5 - 1) = Some (Inr (Num 8))"
    using find_optimal_cost_ones5 by simp
  have h6: "algorithm ?self3 (replicate 5 (replicate 5 1)) (0, 0) (5 - 1, 5 - 1) = Some (Inr (None, PosInf))"
    by (simp add: log_step_def AStarProof_def)
  show ?thesis
    using absent_path_halts_run [OF h1 h2 h3 random_grid_const h5 h6] by blast
qed


subsection \<open>The heap keeps its items\<close>

lemma siftdown_loop_mset:
  "pos < length heap \<Longrightarrow>
   mset (siftdown_loop lt heap startpos newitem pos) = add_mset newitem (mset heap - {#heap ! pos#})"
proof (induction lt heap startpos newitem pos rule: siftdown_loop.induct)
  case (1 lt heap startpos newitem pos)
  show ?case
  proof (cases "pos > startpos \<and> lt newitem (heap ! ((pos - 1) div 2))")
    case True
    let ?pp = "(pos - 1) div 2"
    have pp: "?pp < pos" "?pp < length heap" using True 1(2) by auto
    have "mset (siftdown_loop lt heap startpos newitem pos) =
          mset (siftdown_loop lt (heap[pos := heap ! ?pp]) startpos newitem ?pp)"
      using True by (subst siftdown_loop.simps) (simp add: Let_def)
    also have "\<dots> = add_mset newitem (mset (heap[pos := heap ! ?pp]) - {#heap[pos := heap ! ?pp] ! ?pp#})"
      using 1(1) [OF _ refl refl] True pp by simp
    also have "\<dots> = add_mset newitem (mset heap - {#heap ! pos#})"
      using pp 1(2) by (simp add: mset_update nth_list_update)
    finally show ?thesis .
  next
    case False
    then have "siftdown_loop lt heap startpos newitem pos = heap[pos := newitem]"
      by (subst siftdown_loop.simps) (auto simp: Let_def)
    then show ?thesis using 1(2) by (simp add: mset_update)
  qed
qed

lemma siftdown_mset:
  "pos < length heap \<Longrightarrow> mset (siftdown lt heap startpos pos) = mset heap"
  by (simp add: siftdown_def siftdown_loop_mset)

lemma siftup_loop_hole:
  "pos < length heap \<Longrightarrow> siftup_loop lt heap (length heap) pos = (heap1, pos1) \<Longrightarrow>
   pos1 < length heap1 \<and> length heap1 = length heap \<and>
   mset heap1 - {#heap1 ! pos1#} = mset heap - {#heap ! pos#}"
proof (induction "length heap - pos" arbitrary: heap pos rule: less_induct)
  case less
  show ?case
  proof (cases "2 * pos + 1 < length heap")
    case True
    define cp where "cp = (if 2 * pos + 2 < length heap \<and> \<not> lt (heap ! (2 * pos + 1)) (heap ! (2 * pos + 2))
                            then 2 * pos + 2 else 2 * pos + 1)"
    define heap2 where "heap2 = heap[pos := heap ! cp]"
    have cp: "cp < length heap" "cp \<noteq> pos" "pos < cp"
      using True by (auto simp: cp_def)
    have eq: "siftup_loop lt heap (length heap) pos = siftup_loop lt heap2 (length heap2) cp"
      using True by (subst siftup_loop.simps) (simp add: Let_def cp_def heap2_def)
    have "pos1 < length heap1 \<and> length heap1 = length heap2 \<and>
          mset heap1 - {#heap1 ! pos1#} = mset heap2 - {#heap2 ! cp#}"
    proof (rule less.hyps)
      show "length heap2 - cp < length heap - pos" using cp by (simp add: heap2_def)
      show "cp < length heap2" using cp by (simp add: heap2_def)
      show "siftup_loop lt heap2 (length heap2) cp = (heap1, pos1)" using eq less.prems by simp
    qed
    then show ?thesis
      using cp less.prems(1) by (simp add: heap2_def mset_update nth_list_update)
  next
    case False
    then have "siftup_loop lt heap (length heap) pos = (heap, pos)"
      by (subst siftup_loop.simps) (simp add: Let_def)
    then show ?thesis using less.prems by simp
  qed
qed

lemma siftup_mset:
  assumes "pos < length heap"
  shows "mset (siftup lt heap pos) = mset heap"
proof -
  obtain heap1 pos1 where l: "siftup_loop lt heap (length heap) pos = (heap1, pos1)"
    by (cases "siftup_loop lt heap (length heap) pos")
  from siftup_loop_hole [OF assms l]
  have h: "pos1 < length heap1" "mset heap1 - {#heap1 ! pos1#} = mset heap - {#heap ! pos#}"
    by simp_all
  have "mset (siftup lt heap pos) = mset (heap1[pos1 := heap ! pos])"
    using h(1) by (simp add: siftup_def l siftdown_mset)
  also have "\<dots> = add_mset (heap ! pos) (mset heap - {#heap ! pos#})"
    using h by (simp add: mset_update)
  also have "\<dots> = mset heap"
    using assms by simp
  finally show ?thesis .
qed

lemma heappush_mset: "mset (heappush lt heap item) = add_mset item (mset heap)"
  by (simp add: heappush_def siftdown_mset)

lemma heappop_mset:
  assumes "heappop lt heap = Inr (a, heap')"
  shows "mset heap = add_mset a (mset heap')"
proof (cases "butlast heap = []")
  case True
  then show ?thesis
    using assms by (cases heap rule: rev_cases) (auto simp: heappop_def split: if_splits)
next
  case False
  then obtain b bs x where heap: "heap = (b # bs) @ [x]"
    by (cases heap rule: rev_cases) (auto simp: neq_Nil_conv)
  have "a = b" "heap' = siftup lt (x # bs) 0"
    using assms by (simp_all add: heappop_def heap)
  then show ?thesis
    by (simp add: siftup_mset heap)
qed

lemma heappop_nonempty: "heap \<noteq> [] \<Longrightarrow> \<exists>a heap'. heappop lt heap = Inr (a, heap')"
  by (simp add: heappop_def Let_def)

subsection \<open>The path the engine returns\<close>

lemma get_neighbors_loop_Inr:
  "get_neighbors_loop grid rows cols x y moves acc = Inr res \<Longrightarrow>
   res = acc @ concat (map (neighbor_nodes grid rows cols x y) moves)"
proof (induction moves arbitrary: acc)
  case Nil
  then show ?case by simp
next
  case (Cons d moves)
  obtain dx dy where d: "d = (dx, dy)" by (cases d)
  let ?in = "0 \<le> x + dx \<and> x + dx < rows \<and> 0 \<le> y + dy \<and> y + dy < cols"
  show ?case
  proof (cases ?in)
    case False
    then have "get_neighbors_loop grid rows cols x y moves acc = Inr res"
      using Cons.prems by (auto simp: d Let_def)
    from Cons.IH [OF this] False show ?thesis
      by (auto simp: d neighbor_nodes_def)
  next
    case True
    then obtain c where c: "grid_at grid (x + dx) (y + dy) = Inr c"
      using Cons.prems by (cases "grid_at grid (x + dx) (y + dy)") (auto simp: d Let_def)
    show ?thesis
    proof (cases "c = - 1")
      case True
      then have "get_neighbors_loop grid rows cols x y moves acc = Inr res"
        using Cons.prems \<open>?in\<close> c by (auto simp: d Let_def)
      from Cons.IH [OF this] True c \<open>?in\<close> show ?thesis
        by (auto simp: d neighbor_nodes_def)
    next
      case False
      then have "get_neighbors_loop grid rows cols x y moves (acc @ [Node_init (x + dx) (y + dy) c])
                 = Inr res"
        using Cons.prems \<open>?in\<close> c by (auto simp: d Let_def)
      from Cons.IH [OF this] False c \<open>?in\<close> show ?thesis
        by (auto simp: d neighbor_nodes_def)
    qed
  qed
qed

lemma grid_at_Inr_in_bounds:
  "0 \<le> a \<Longrightarrow> 0 \<le> b \<Longrightarrow> grid_at grid a b = Inr c \<Longrightarrow> in_bounds grid (a, b) \<and> cell grid (a, b) = c"
  by (auto simp: grid_at_def py_getitem_def in_bounds_def cell_def split: sum.splits if_splits)

lemma neighbor_nodes_sound:
  assumes "m \<in> set (neighbor_nodes grid rows cols x y d)" "d \<in> set possible_moves"
  shows "m = Node_init (node_x m) (node_y m) (node_cost m) \<and>
         manhattan (x, y) (node_x m, node_y m) = 1 \<and>
         in_bounds grid (node_x m, node_y m) \<and>
         cell grid (node_x m, node_y m) = node_cost m \<and> node_cost m \<noteq> - 1"
proof -
  have "\<exists>c. 0 \<le> x + fst d \<and> 0 \<le> y + snd d \<and>
      grid_at grid (x + fst d) (y + snd d) = Inr c \<and> c \<noteq> - 1 \<and>
      m = Node_init (x + fst d) (y + snd d) c"
    using assms(1) unfolding neighbor_nodes_def
    by (cases "grid_at grid (x + fst d) (y + snd d)") (auto split: if_splits cong: if_cong)
  then obtain c where c: "0 \<le> x + fst d" "0 \<le> y + snd d"
      "grid_at grid (x + fst d) (y + snd d) = Inr c" "c \<noteq> - 1"
      "m = Node_init (x + fst d) (y + snd d) c"
    by blast
  have "manhattan (x, y) (x + fst d, y + snd d) = 1"
    using assms(2) by (auto simp: possible_moves_def manhattan_def)
  then show ?thesis
    using grid_at_Inr_in_bounds [OF c(1,2,3)] c(4,5) by (simp add: Node_init_def)
qed

lemma get_neighbors_sound:
  assumes "get_neighbors grid n = Inr nbs" "m \<in> set nbs"
  shows "m = Node_init (node_x m) (node_y m) (node_cost m) \<and>
         step grid (node_x n, node_y n) (node_x m, node_y m) \<and>
         cell grid (node_x m, node_y m) = node_cost m"
proof -
  from assms(1) obtain row0 :: "int list" where
    "get_neighbors_loop grid (int (length grid)) (int (length row0)) (node_x n) (node_y n)
       possible_moves [] = Inr nbs"
    by (auto simp: get_neighbors_def split: sum.splits)
  from get_neighbors_loop_Inr [OF this] assms(2)
  obtain d where "d \<in> set possible_moves"
     "m \<in> set (neighbor_nodes grid (int (length grid)) (int (length row0)) (node_x n) (node_y n) d)"
    by auto
  from neighbor_nodes_sound [OF this(2,1)] show ?thesis
    by (simp add: step_def)
qed

lemma path_back_hd: "path_back n = (node_x n, node_y n) # tl (path_back n)"
  by (cases n) simp

lemma path_back_child:
  "path_back (Node x y c g h f (Some p)) = (x, y) # path_back p"
  by simp

lemma node_ok_child:
  assumes "node_ok grid start p" "step grid (node_x p, node_y p) (x, y)"
  shows "node_ok grid start (Node x y c g h f (Some p))"
proof -
  obtain r where r: "path_back p = (node_x p, node_y p) # r"
    using path_back_hd by blast
  show ?thesis
    using assms by (simp add: node_ok_def r)
qed

lemma set_heappush: "set (heappush lt heap item) = insert item (set heap)"
  using heappush_mset [of lt heap item] by (metis set_mset_add_mset_insert set_mset_mset)

lemma set_heappop:
  "heappop lt heap = Inr (a, heap') \<Longrightarrow> set heap = insert a (set heap')"
  using heappop_mset [of lt heap a heap'] by (metis set_mset_add_mset_insert set_mset_mset)

lemma visit_correct_ok:
  assumes "\<forall>n \<in> set open_set. node_ok grid start n" "node_ok grid start cur"
    "step grid (node_x cur, node_y cur) (node_x m, node_y m)"
  shows "\<forall>n \<in> set (visit_correct e closed cur open_set m). node_ok grid start n"
  using assms by (auto simp: visit_correct_def Let_def set_heappush intro: node_ok_child)

lemma foldl_visit_correct_ok:
  assumes "\<forall>n \<in> set open_set. node_ok grid start n" "node_ok grid start cur"
    "\<forall>m \<in> set nbs. step grid (node_x cur, node_y cur) (node_x m, node_y m)"
  shows "\<forall>n \<in> set (foldl (visit_correct e closed cur) open_set nbs). node_ok grid start n"
  using assms
proof (induction nbs arbitrary: open_set)
  case Nil
  then show ?case by simp
next
  case (Cons m nbs)
  have "\<forall>n \<in> set (visit_correct e closed cur open_set m). node_ok grid start n"
    using Cons.prems by (intro visit_correct_ok) auto
  then show ?case
    using Cons.IH Cons.prems by simp
qed

lemma astar_correct_loop_path_aux:
  assumes "astar_correct_loop grid e open_set closed = Some r"
  shows "(\<forall>n \<in> set open_set. node_ok grid start n) \<longrightarrow>
   (\<forall>path c. r = Inr (Some path, c) \<longrightarrow>
      (\<exists>n. node_ok grid start n \<and> (node_x n, node_y n) = e \<and> path = get_path n \<and> c = node_g n))"
  using assms
proof (induction rule: astar_correct_loop.raw_induct [rotated 1, consumes 1, case_names step])
  case (step loop grid e open_set closed r)
  show ?case
  proof (intro impI allI)
    fix path c
    assume ok: "\<forall>n \<in> set open_set. node_ok grid start n" and r: "r = Inr (Some path, c)"
    from step(2) r have ne: "open_set \<noteq> []" by (auto split: if_splits)
    then obtain cur open1 where pop: "heappop Node_lt open_set = Inr (cur, open1)"
      using heappop_nonempty by blast
    have cur: "node_ok grid start cur" and open1: "\<forall>n \<in> set open1. node_ok grid start n"
      using set_heappop [OF pop] ok by auto
    show "\<exists>n. node_ok grid start n \<and> (node_x n, node_y n) = e \<and> path = get_path n \<and> c = node_g n"
    proof (cases "(node_x cur, node_y cur) = e")
      case True
      then show ?thesis using step(2) r ne pop cur by auto
    next
      case False
      then obtain nbs where nbs: "get_neighbors grid cur = Inr nbs"
        and rec: "loop grid e (foldl (visit_correct e (insert (node_x cur, node_y cur) closed) cur) open1 nbs)
                   (insert (node_x cur, node_y cur) closed) = Some r"
        using step(2) r ne pop by (auto simp: Let_def split: sum.splits)
      have "\<forall>m \<in> set nbs. step grid (node_x cur, node_y cur) (node_x m, node_y m)"
        using get_neighbors_sound [OF nbs] by blast
      from foldl_visit_correct_ok [OF open1 cur this]
      show ?thesis using step(1) [OF rec] r by blast
    qed
  qed
qed

lemma stepD: "step grid p q \<Longrightarrow> manhattan p q = 1 \<and> in_bounds grid q \<and> cell grid q \<noteq> - 1"
  by (simp add: step_def)

lemma successively_step_targets:
  "successively (step grid) l \<Longrightarrow> \<forall>q \<in> set (tl l). in_bounds grid q \<and> cell grid q \<noteq> - 1"
proof (induction l)
  case Nil
  then show ?case by simp
next
  case (Cons a l)
  then show ?case by (cases l) (auto dest: stepD)
qed

lemma in_bounds_not_impassable:
  "in_bounds grid q \<Longrightarrow> cell grid q \<noteq> - 1 \<Longrightarrow> \<not> impassable grid q"
  by (simp add: impassable_def grid_at_in_bounds cell_def)

lemma node_ok_get_path:
  assumes "node_ok grid start n"
  shows "get_path n \<noteq> [] \<and> hd (get_path n) = start \<and> last (get_path n) = (node_x n, node_y n) \<and>
         successively (step grid) (get_path n)"
proof -
  have ne: "path_back n \<noteq> []" and hd: "hd (path_back n) = (node_x n, node_y n)"
    by (cases n, simp)+
  show ?thesis
    using assms ne hd unfolding node_ok_def get_path_def
    by (simp add: hd_rev last_rev del: path_back.simps)
qed

lemma node_ok_start: "node_ok grid start (start_node_of start c)"
  by (simp add: node_ok_def start_node_of_def)

text \<open>
  C2, as the code has it. Whenever \<open>astar_correct\<close> returns a path, the path starts at
  the start, ends at the end, every two consecutive coordinates are exactly one Manhattan
  step apart, and every coordinate after the first is in bounds and names a passable
  cell. The first coordinate is the start, whose cell the engine never tests.
\<close>

theorem astar_correct_path_valid:
  assumes "astar_correct grid start end = Some (Inr (Some path, c))"
  shows "path \<noteq> [] \<and> hd path = start \<and> last path = end \<and>
         successively (\<lambda>p q. manhattan p q = 1) path \<and>
         (\<forall>p \<in> set (tl path). in_bounds grid p \<and> \<not> impassable grid p)"
proof -
  from assms obtain c0 where
    loop: "astar_correct_loop grid end [start_node_of start c0] {} = Some (Inr (Some path, c))"
    by (auto simp: astar_correct_def split: sum.splits)
  have "\<forall>n \<in> set [start_node_of start c0]. node_ok grid start n"
    by (simp add: node_ok_start)
  with astar_correct_loop_path_aux [OF loop, of start] obtain n where
    n: "node_ok grid start n" "(node_x n, node_y n) = end" "path = get_path n"
    by blast
  from node_ok_get_path [OF n(1)] n(2,3)
  have p: "path \<noteq> []" "hd path = start" "last path = end" "successively (step grid) path"
    by simp_all
  have "successively (\<lambda>p q. manhattan p q = 1) path"
    using p(4) by (rule successively_mono) (simp add: stepD)
  moreover have "\<forall>q \<in> set (tl path). in_bounds grid q \<and> \<not> impassable grid q"
    using successively_step_targets [OF p(4)] in_bounds_not_impassable by blast
  ultimately show ?thesis using p by simp
qed

theorem astar_correct_path_valid_witness:
  "\<exists>path c.
     astar_correct (replicate 5 (replicate 5 1)) (0, 0) (4, 4) = Some (Inr (Some path, c)) \<and>
     path \<noteq> [] \<and> hd path = (0, 0) \<and> last path = (4, 4) \<and>
     successively (\<lambda>p q. manhattan p q = 1) path \<and>
     (\<forall>p \<in> set (tl path).
        in_bounds (replicate 5 (replicate 5 1)) p \<and>
        \<not> impassable (replicate 5 (replicate 5 1)) p)"
  using astar_correct_path_valid [OF astar_correct_ones5] astar_correct_ones5 by blast


text \<open>
  C2 as stated, with no coordinate on an impassable cell, fails when the start itself is
  one: the path begins there.
\<close>

theorem astar_correct_path_from_wall:
  "in_bounds [[- 1, 1]] (0, 0) \<and> in_bounds [[- 1, 1]] (0, 1) \<and>
   astar_correct [[- 1, 1]] (0, 0) (0, 1) = Some (Inr (Some [(0, 0), (0, 1)], Num 1)) \<and>
   impassable [[- 1, 1]] (0, 0)"
  by code_simp

subsection \<open>Neighbours and the open set\<close>

lemma finite_cells: "finite (cells grid)"
proof -
  have "cells grid \<subseteq> (\<lambda>(a, b). (int a, int b)) ` ({..< length grid} \<times> {..< length (grid ! 0)})"
  proof
    fix p assume "p \<in> cells grid"
    then have "p = (\<lambda>(a, b). (int a, int b)) (nat (fst p), nat (snd p))"
      "nat (fst p) < length grid" "nat (snd p) < length (grid ! 0)"
      by (auto simp: cells_def)
    then show "p \<in> (\<lambda>(a, b). (int a, int b)) ` ({..< length grid} \<times> {..< length (grid ! 0)})"
      by (metis (no_types, lifting) SigmaI imageI lessThan_iff)
  qed
  then show ?thesis by (rule finite_subset) simp
qed

lemma visit_correct_mset:
  "mset (visit_correct e closed cur open_set m) =
     mset open_set + (if pushed_correct closed cur m then {#child_correct e cur m#} else {#})"
  by (simp add: visit_correct_def pushed_correct_def child_correct_def Let_def heappush_mset
        heuristic_def)

lemma foldl_visit_correct_mset:
  "mset (foldl (visit_correct e closed cur) open_set nbs) =
     mset open_set + mset (map (child_correct e cur) (filter (pushed_correct closed cur) nbs))"
  by (induction nbs arbitrary: open_set) (simp_all add: visit_correct_mset)

lemma neighbor_nodes_length: "length (neighbor_nodes grid rows cols x y d) \<le> 1"
  unfolding neighbor_nodes_def by (simp split: sum.splits)

lemma get_neighbors_Inr:
  assumes "get_neighbors grid n = Inr nbs"
  shows "grid \<noteq> [] \<and>
         nbs = concat (map (neighbor_nodes grid (int (length grid)) (int (length (grid ! 0)))
                              (node_x n) (node_y n)) possible_moves)"
proof -
  from assms have ne: "grid \<noteq> []"
    by (auto simp: get_neighbors_def py_getitem_def split: sum.splits)
  then have "py_getitem grid 0 = Inr (grid ! 0)"
    by (simp add: py_getitem_def)
  with assms get_neighbors_loop_Inr [of grid _ _ _ _ possible_moves "[]" nbs] ne show ?thesis
    by (simp add: get_neighbors_def)
qed

lemma get_neighbors_length:
  assumes "get_neighbors grid n = Inr nbs"
  shows "length nbs \<le> 4"
proof -
  have "length nbs = (\<Sum>d\<leftarrow>possible_moves.
      length (neighbor_nodes grid (int (length grid)) (int (length (grid ! 0))) (node_x n) (node_y n) d))"
    using get_neighbors_Inr [OF assms] by (simp add: length_concat comp_def)
  also have "\<dots> \<le> (\<Sum>d\<leftarrow>possible_moves. 1)"
    by (rule sum_list_mono) (use neighbor_nodes_length in auto)
  finally show ?thesis by (simp add: possible_moves_def)
qed

lemma neighbor_nodes_cells:
  assumes "m \<in> set (neighbor_nodes grid (int (length grid)) (int (length (grid ! 0))) x y d)"
  shows "(node_x m, node_y m) \<in> cells grid \<and> node_g m = PosInf"
  using assms unfolding neighbor_nodes_def
  by (cases "grid_at grid (x + fst d) (y + snd d)")
     (auto simp: cells_def Node_init_def split: if_splits cong: if_cong)

lemma get_neighbors_cells:
  assumes "get_neighbors grid n = Inr nbs" "m \<in> set nbs"
  shows "(node_x m, node_y m) \<in> cells grid \<and> node_g m = PosInf"
  using get_neighbors_Inr [OF assms(1)] assms(2) neighbor_nodes_cells by auto

subsection \<open>The engine's loop returns\<close>

lemma potential_mset: "potential N open_set = sum_mset (image_mset (weight N) (mset open_set))"
  by (simp add: potential_def sum_mset_sum_list [symmetric])

lemma potential_union:
  "mset a = mset b + mset c \<Longrightarrow> potential N a = potential N b + potential N c"
  by (simp add: potential_mset)

lemma path_back_child_correct:
  "path_back (child_correct e cur m) = (node_x m, node_y m) # path_back cur"
  by (simp add: child_correct_def)

lemma path_back_set: "set (path_back n) = insert (node_x n, node_y n) (set (tl (path_back n)))"
  by (cases n) simp

lemma path_back_length: "length (path_back n) = Suc (length (tl (path_back n)))"
  by (cases n) simp

lemma sum_list_const_le:
  "(\<forall>x \<in> set xs. f x = (w::nat)) \<Longrightarrow> sum_list (map f xs) = length xs * w"
  by (induction xs) auto

lemma astar_step_potential:
  assumes inv: "term_inv grid D open_set closed"
    and pop: "heappop Node_lt open_set = Inr (cur, open1)"
    and nbs: "get_neighbors grid cur = Inr nbs"
    and closed1: "closed1 = insert (node_x cur, node_y cur) closed"
    and open2: "open2 = foldl (visit_correct e closed1 cur) open1 nbs"
  shows "term_inv grid D open2 closed1 \<and> potential (Suc (card D)) open2 < potential (Suc (card D)) open_set"
proof -
  let ?N = "Suc (card D)"
  let ?P = "filter (pushed_correct closed1 cur) nbs"
  have m_open: "mset open_set = add_mset cur (mset open1)"
    using heappop_mset [OF pop] .
  have m_open2: "mset open2 = mset open1 + mset (map (child_correct e cur) ?P)"
    by (simp add: open2 foldl_visit_correct_mset)
  have cur_in: "cur \<in> set open_set" and open1_sub: "set open1 \<subseteq> set open_set"
    using set_heappop [OF pop] by auto
  from inv cur_in have cur: "(node_x cur, node_y cur) \<in> D" "distinct (path_back cur)"
      "set (tl (path_back cur)) \<subseteq> closed"
    by (auto simp: term_inv_def)
  have fin: "finite D" and cl: "closed \<subseteq> D" and cellsD: "cells grid \<subseteq> D"
    using inv by (auto simp: term_inv_def)
  have cl1: "closed1 \<subseteq> D" using cl cur(1) closed1 by simp
  have pb_cur: "set (path_back cur) \<subseteq> closed1"
    using cur(3) closed1 path_back_set [of cur] by auto
  have set_open2: "set open2 = set open1 \<union> child_correct e cur ` set ?P"
    using m_open2 by (metis set_mset_mset set_mset_union set_map)
  have inv2: "term_inv grid D open2 closed1"
    unfolding term_inv_def
  proof (intro conjI ballI)
    fix n assume "n \<in> set open2"
    then consider "n \<in> set open1" | m where "m \<in> set ?P" "n = child_correct e cur m"
      using set_open2 by auto
    then have "(node_x n, node_y n) \<in> D \<and> distinct (path_back n) \<and>
               set (tl (path_back n)) \<subseteq> closed1"
    proof cases
      case 1
      then show ?thesis using inv open1_sub closed1 by (auto simp: term_inv_def)
    next
      case 2
      then have m: "m \<in> set nbs" "(node_x m, node_y m) \<notin> closed1"
        by (auto simp: pushed_correct_def)
      have "(node_x m, node_y m) \<in> D"
        using get_neighbors_cells [OF nbs m(1)] cellsD by auto
      then show ?thesis
        using 2(2) m(2) pb_cur cur(2)
        by (auto simp: path_back_child_correct child_correct_def)
    qed
    then show "(node_x n, node_y n) \<in> D" "distinct (path_back n)"
      "set (tl (path_back n)) \<subseteq> closed1"
      by simp_all
  qed (use fin cellsD cl1 in auto)
  have pot2: "potential ?N open2 =
      potential ?N open1 + sum_list (map (weight ?N) (map (child_correct e cur) ?P))"
    using potential_union [OF m_open2] by (simp add: potential_def)
  have pot: "potential ?N open_set = weight ?N cur + potential ?N open1"
    by (simp add: potential_mset m_open)
  have "sum_list (map (weight ?N) (map (child_correct e cur) ?P)) < weight ?N cur"
  proof (cases "?P = []")
    case True
    then show ?thesis by (simp add: weight_def)
  next
    case False
    then obtain m where m: "m \<in> set nbs" "(node_x m, node_y m) \<notin> closed1"
      by (metis (no_types, lifting) filter_False pushed_correct_def)
    have "(node_x m, node_y m) \<in> D"
      using get_neighbors_cells [OF nbs m(1)] cellsD by auto
    then have "closed1 \<subset> D" using cl1 m(2) by auto
    then have "card closed1 < card D" using fin by (simp add: psubset_card_mono)
    moreover have "length (path_back cur) = card (set (path_back cur))"
      using cur(2) by (simp add: distinct_card)
    moreover have "card (set (path_back cur)) \<le> card closed1"
      using pb_cur fin cl1 by (meson card_mono finite_subset)
    ultimately have len: "length (path_back cur) < card D" by simp
    have w: "\<forall>x \<in> set (map (child_correct e cur) ?P).
               weight ?N x = 5 ^ (?N - Suc (length (path_back cur)))"
      by (auto simp: weight_def path_back_child_correct)
    have "sum_list (map (weight ?N) (map (child_correct e cur) ?P)) =
          length ?P * 5 ^ (?N - Suc (length (path_back cur)))"
      using sum_list_const_le [OF w] by simp
    also have "\<dots> \<le> 4 * 5 ^ (?N - Suc (length (path_back cur)))"
    proof -
      have "length ?P \<le> 4"
        using get_neighbors_length [OF nbs] length_filter_le [of "pushed_correct closed1 cur" nbs]
        by linarith
      then show ?thesis by (rule mult_le_mono1)
    qed
    also have "\<dots> < 5 * 5 ^ (?N - Suc (length (path_back cur)))"
      by simp
    also have "\<dots> = 5 ^ (?N - length (path_back cur))"
      using len by (metis Suc_diff_Suc less_Suc_eq less_imp_le_nat not_less power_Suc Suc_diff_le diff_Suc_Suc)
    finally show ?thesis by (simp add: weight_def)
  qed
  then show ?thesis using inv2 pot pot2 by simp
qed

lemma astar_correct_loop_terminates:
  "term_inv grid D open_set closed \<Longrightarrow> \<exists>r. astar_correct_loop grid e open_set closed = Some r"
proof (induction "potential (Suc (card D)) open_set" arbitrary: open_set closed rule: less_induct)
  case less
  show ?case
  proof (cases "open_set = []")
    case True
    then show ?thesis by (subst astar_correct_loop.simps) simp
  next
    case False
    then obtain cur open1 where pop: "heappop Node_lt open_set = Inr (cur, open1)"
      using heappop_nonempty by blast
    show ?thesis
    proof (cases "(node_x cur, node_y cur) = e")
      case True
      then show ?thesis using False pop by (subst astar_correct_loop.simps) simp
    next
      case ne: False
      show ?thesis
      proof (cases "get_neighbors grid cur")
        case (Inl err)
        then show ?thesis using False pop ne by (subst astar_correct_loop.simps) simp
      next
        case (Inr nbs)
        define closed1 where "closed1 = insert (node_x cur, node_y cur) closed"
        define open2 where "open2 = foldl (visit_correct e closed1 cur) open1 nbs"
        from astar_step_potential [OF less.prems pop Inr closed1_def open2_def]
        have "term_inv grid D open2 closed1"
          "potential (Suc (card D)) open2 < potential (Suc (card D)) open_set"
          by simp_all
        from less.hyps [OF this(2,1)] obtain r where
          "astar_correct_loop grid e open2 closed1 = Some r" by blast
        then show ?thesis
          using False pop ne Inr
          by (subst astar_correct_loop.simps) (simp add: closed1_def open2_def Let_def)
      qed
    qed
  qed
qed

subsection \<open>Completeness of the engine\<close>

lemma rect_row_length:
  "rect grid \<Longrightarrow> i < length grid \<Longrightarrow> length (grid ! i) = length (grid ! 0)"
  unfolding rect_def using nth_mem by blast

lemma rect_in_bounds:
  assumes "rect grid"
  shows "in_bounds grid p \<longleftrightarrow> p \<in> cells grid"
proof (cases "0 \<le> fst p \<and> fst p < int (length grid)")
  case True
  then have "nat (fst p) < length grid" by linarith
  from rect_row_length [OF assms this] True show ?thesis
    by (simp add: in_bounds_def cells_def)
next
  case False
  then show ?thesis by (auto simp: in_bounds_def cells_def)
qed

lemma rect_grid_at:
  "rect grid \<Longrightarrow> p \<in> cells grid \<Longrightarrow> grid_at grid (fst p) (snd p) = Inr (cell grid p)"
  using grid_at_in_bounds [of grid p] by (simp add: rect_in_bounds cell_def)

lemma get_neighbors_loop_rect:
  assumes "rect grid"
  shows "\<exists>res. get_neighbors_loop grid (int (length grid)) (int (length (grid ! 0))) x y moves acc
           = Inr res"
proof (induction moves arbitrary: acc)
  case Nil
  then show ?case by simp
next
  case (Cons d moves)
  obtain dx dy where d: "d = (dx, dy)" by (cases d)
  show ?case
  proof (cases "(x + dx, y + dy) \<in> cells grid")
    case True
    from rect_grid_at [OF assms this]
    have g: "grid_at grid (x + dx) (y + dy) = Inr (cell grid (x + dx, y + dy))" by simp
    have r: "0 \<le> x + dx" "x + dx < int (length grid)" "0 \<le> y + dy"
             "y + dy < int (length (grid ! 0))"
      using True by (simp_all add: cells_def)
    show ?thesis
    proof (cases "cell grid (x + dx, y + dy) = - 1")
      case True
      then show ?thesis using Cons.IH [of acc] by (simp add: d Let_def r g)
    next
      case False
      then show ?thesis
        using Cons.IH [of "acc @ [Node_init (x + dx) (y + dy) (cell grid (x + dx, y + dy))]"]
        by (simp add: d Let_def r g)
    qed
  next
    case False
    then have "\<not> (0 \<le> x + dx \<and> x + dx < int (length grid) \<and> 0 \<le> y + dy \<and>
             y + dy < int (length (grid ! 0)))"
      by (simp add: cells_def)
    then show ?thesis
      using Cons.IH [of acc] by (auto simp: d Let_def)
  qed
qed

lemma get_neighbors_rect:
  assumes "rect grid"
  shows "\<exists>nbs. get_neighbors grid n = Inr nbs"
proof -
  have "py_getitem grid 0 = Inr (grid ! 0)"
    using assms by (simp add: rect_def py_getitem_def)
  then show ?thesis
    using get_neighbors_loop_rect [OF assms] by (simp add: get_neighbors_def)
qed

lemma manhattan_one_move:
  assumes "manhattan (x, y) u = 1"
  shows "\<exists>d \<in> set possible_moves. u = (x + fst d, y + snd d)"
proof -
  obtain a b where u: "u = (a, b)" by (cases u)
  from assms have "(a = x \<and> (b = y + 1 \<or> b = y - 1)) \<or> (b = y \<and> (a = x + 1 \<or> a = x - 1))"
    by (auto simp: manhattan_def u abs_if split: if_splits)
  then show ?thesis
    by (auto simp: possible_moves_def u)
qed

lemma get_neighbors_complete:
  assumes "rect grid" "get_neighbors grid n = Inr nbs" "step grid (node_x n, node_y n) u"
  shows "\<exists>m \<in> set nbs. (node_x m, node_y m) = u \<and> node_cost m = cell grid u \<and> node_g m = PosInf"
proof -
  from assms(3) have s: "manhattan (node_x n, node_y n) u = 1" "in_bounds grid u" "cell grid u \<noteq> - 1"
    by (simp_all add: step_def)
  from manhattan_one_move [OF s(1)] obtain d where
    d: "d \<in> set possible_moves" "u = (node_x n + fst d, node_y n + snd d)" by blast
  have uc: "u \<in> cells grid" using s(2) assms(1) by (simp add: rect_in_bounds)
  have g: "grid_at grid (node_x n + fst d) (node_y n + snd d) = Inr (cell grid u)"
    using rect_grid_at [OF assms(1) uc] d(2) by simp
  have "neighbor_nodes grid (int (length grid)) (int (length (grid ! 0))) (node_x n) (node_y n) d
        = [Node_init (node_x n + fst d) (node_y n + snd d) (cell grid u)]"
    using uc g s(3) unfolding neighbor_nodes_def by (simp add: cells_def d(2))
  then have "Node_init (node_x n + fst d) (node_y n + snd d) (cell grid u) \<in>
      set (concat (map (neighbor_nodes grid (int (length grid)) (int (length (grid ! 0)))
                         (node_x n) (node_y n)) possible_moves))"
    using d(1) by (auto intro!: bexI [of _ d])
  then have "Node_init (node_x n + fst d) (node_y n + snd d) (cell grid u) \<in> set nbs"
    using get_neighbors_Inr [OF assms(2)] by simp
  then show ?thesis
    using d(2) by (intro bexI [of _ "Node_init (node_x n + fst d) (node_y n + snd d) (cell grid u)"])
      (simp_all add: Node_init_def)
qed

lemma step_closed_walk:
  assumes "\<forall>v \<in> S. \<forall>u. step grid v u \<longrightarrow> u \<in> S"
  shows "successively (step grid) l \<Longrightarrow> l \<noteq> [] \<Longrightarrow> hd l \<in> S \<Longrightarrow> last l \<in> S"
proof (induction l)
  case Nil
  then show ?case by simp
next
  case (Cons a l)
  show ?case
  proof (cases l)
    case Nil
    then show ?thesis using Cons.prems by simp
  next
    case (Cons b l')
    then have "step grid a b" "successively (step grid) l" using Cons.prems(1) by simp_all
    moreover have "a \<in> S" using Cons.prems(3) by simp
    with \<open>step grid a b\<close> have "b \<in> S" using assms by blast
    ultimately show ?thesis using Cons.IH Cons by simp
  qed
qed

lemma comp_inv_empty:
  assumes "comp_inv grid s e [] closed"
  shows "\<not> reachable grid s e"
proof
  assume "reachable grid s e"
  then obtain l where l: "l \<noteq> []" "hd l = s" "last l = e" "successively (step grid) l"
    by (auto simp: reachable_def)
  from assms have "\<forall>v \<in> closed. \<forall>u. step grid v u \<longrightarrow> u \<in> closed" "s \<in> closed" "e \<notin> closed"
    by (auto simp: comp_inv_def)
  from step_closed_walk [OF this(1) l(4) l(1)] this(2,3) l(2,3) show False by simp
qed

lemma cost_lt_PosInf: "cost_lt a PosInf \<longleftrightarrow> a \<noteq> PosInf"
  by (cases a) simp_all

lemma cost_add_PosInf: "cost_add a k = PosInf \<longleftrightarrow> a = PosInf"
  by (cases a) simp_all

lemma comp_inv_step:
  assumes rect: "rect grid"
    and inv: "comp_inv grid s e open_set closed"
    and pop: "heappop Node_lt open_set = Inr (cur, open1)"
    and ne: "(node_x cur, node_y cur) \<noteq> e"
    and nbs: "get_neighbors grid cur = Inr nbs"
    and closed1: "closed1 = insert (node_x cur, node_y cur) closed"
    and open2: "open2 = foldl (visit_correct e closed1 cur) open1 nbs"
  shows "comp_inv grid s e open2 closed1"
proof -
  let ?P = "filter (pushed_correct closed1 cur) nbs"
  have set_open: "set open_set = insert cur (set open1)"
    using set_heappop [OF pop] .
  have "mset open2 = mset open1 + mset (map (child_correct e cur) ?P)"
    by (simp add: open2 foldl_visit_correct_mset)
  then have set_open2: "set open2 = set open1 \<union> child_correct e cur ` set ?P"
    by (metis set_mset_mset set_mset_union set_map)
  have i1: "e \<notin> closed"
    and i2: "s \<in> closed \<or> (\<exists>n \<in> set open_set. (node_x n, node_y n) = s)"
    and i3: "\<forall>n \<in> set open_set. node_g n \<noteq> PosInf"
    and i4: "\<forall>v \<in> closed. \<forall>u. step grid v u \<longrightarrow>
         u \<in> closed \<or> (\<exists>m \<in> set open_set. (node_x m, node_y m) = u)"
    using inv unfolding comp_inv_def by blast+
  have gcur: "node_g cur \<noteq> PosInf" using i3 set_open by simp
  have covered: "u \<in> closed1 \<or> (\<exists>m \<in> set open2. (node_x m, node_y m) = u)"
    if "u \<in> closed \<or> (\<exists>m \<in> set open_set. (node_x m, node_y m) = u)" for u
    using that set_open set_open2 closed1 by auto
  have c1: "e \<notin> closed1" using i1 ne closed1 by auto
  have c2: "s \<in> closed1 \<or> (\<exists>n \<in> set open2. (node_x n, node_y n) = s)"
    using i2 by (rule covered)
  have c3: "\<forall>n \<in> set open2. node_g n \<noteq> PosInf"
    using i3 set_open set_open2 gcur
    by (auto simp: child_correct_def cost_add_PosInf)
  have c4: "u \<in> closed1 \<or> (\<exists>m \<in> set open2. (node_x m, node_y m) = u)"
    if v: "v \<in> closed1" and st: "step grid v u" for v u
  proof (cases "v \<in> closed")
    case True
    then have "u \<in> closed \<or> (\<exists>m \<in> set open_set. (node_x m, node_y m) = u)"
      using i4 st by blast
    then show ?thesis by (rule covered)
  next
    case False
    then have "v = (node_x cur, node_y cur)" using v closed1 by simp
    with get_neighbors_complete [OF rect nbs] st obtain m where
      m: "m \<in> set nbs" "(node_x m, node_y m) = u" "node_g m = PosInf" by blast
    show ?thesis
    proof (cases "u \<in> closed1")
      case True then show ?thesis by simp
    next
      case False
      then have "pushed_correct closed1 cur m"
        using m gcur by (simp add: pushed_correct_def cost_lt_PosInf cost_add_PosInf)
      then have "child_correct e cur m \<in> set open2"
        using m(1) set_open2 by auto
      moreover have "(node_x (child_correct e cur m), node_y (child_correct e cur m)) = u"
        using m(2) by (simp add: child_correct_def)
      ultimately show ?thesis by blast
    qed
  qed
  show ?thesis
    unfolding comp_inv_def using c1 c2 c3 c4 by blast
qed

lemma astar_correct_loop_complete:
  assumes "astar_correct_loop grid e open_set closed = Some r"
  shows "rect grid \<longrightarrow> comp_inv grid s e open_set closed \<longrightarrow>
         (\<forall>err. r \<noteq> Inl err) \<and> (\<forall>c. r = Inr (None, c) \<longrightarrow> c = PosInf \<and> \<not> reachable grid s e)"
  using assms
proof (induction rule: astar_correct_loop.raw_induct [rotated 1, consumes 1, case_names step])
  case (step loop grid e open_set closed r)
  show ?case
  proof (intro impI)
    assume rect: "rect grid" and inv: "comp_inv grid s e open_set closed"
    show "(\<forall>err. r \<noteq> Inl err) \<and> (\<forall>c. r = Inr (None, c) \<longrightarrow> c = PosInf \<and> \<not> reachable grid s e)"
    proof (cases "open_set = []")
      case True
      then show ?thesis using step(2) inv comp_inv_empty by auto
    next
      case False
      then obtain cur open1 where pop: "heappop Node_lt open_set = Inr (cur, open1)"
        using heappop_nonempty by blast
      show ?thesis
      proof (cases "(node_x cur, node_y cur) = e")
        case True
        then show ?thesis using step(2) False pop by auto
      next
        case ne: False
        obtain nbs where nbs: "get_neighbors grid cur = Inr nbs"
          using get_neighbors_rect [OF rect] by blast
        define closed1 where "closed1 = insert (node_x cur, node_y cur) closed"
        define open2 where "open2 = foldl (visit_correct e closed1 cur) open1 nbs"
        have rec: "loop grid e open2 closed1 = Some r"
          using step(2) False pop ne nbs by (simp add: Let_def closed1_def open2_def)
        from comp_inv_step [OF rect inv pop ne nbs closed1_def open2_def]
        show ?thesis using step(1) [OF rec] rect by blast
      qed
    qed
  qed
qed

subsection \<open>The engine finds a path exactly when there is one\<close>

lemma node_ok_reachable:
  assumes "node_ok grid s n"
  shows "reachable grid s (node_x n, node_y n)"
  unfolding reachable_def using node_ok_get_path [OF assms] by blast

lemma astar_correct_total:
  assumes rect: "rect grid" and s: "in_bounds grid s"
  shows "\<exists>r. astar_correct grid s e = Some (Inr r) \<and>
           (fst r = None \<longrightarrow> snd r = PosInf \<and> \<not> reachable grid s e) \<and>
           (fst r \<noteq> None \<longrightarrow> reachable grid s e)"
proof -
  let ?c = "grid ! nat (fst s) ! nat (snd s)"
  let ?n = "start_node_of s ?c"
  have eq: "astar_correct grid s e = astar_correct_loop grid e [?n] {}"
    by (simp add: astar_correct_def grid_at_in_bounds [OF s])
  have "term_inv grid (insert s (cells grid)) [?n] {}"
    by (auto simp: term_inv_def finite_cells start_node_of_def)
  from astar_correct_loop_terminates [OF this] obtain r where
    r: "astar_correct_loop grid e [?n] {} = Some r" by blast
  have "comp_inv grid s e [?n] {}"
    by (simp add: comp_inv_def start_node_of_def)
  with astar_correct_loop_complete [OF r, of s] rect
  have noerr: "\<forall>err. r \<noteq> Inl err"
    and none: "\<forall>c. r = Inr (None, c) \<longrightarrow> c = PosInf \<and> \<not> reachable grid s e"
    by blast+
  from noerr obtain p c where pc: "r = Inr (p, c)"
    by (cases r) auto
  have "reachable grid s e" if "p \<noteq> None"
  proof -
    from that obtain path where "r = Inr (Some path, c)" using pc by auto
    moreover have "\<forall>n \<in> set [?n]. node_ok grid s n" by (simp add: node_ok_start)
    ultimately obtain n where "node_ok grid s n" "(node_x n, node_y n) = e"
      using astar_correct_loop_path_aux [OF r, of s] by blast
    then show ?thesis using node_ok_reachable by blast
  qed
  then show ?thesis
    using eq r pc none by auto
qed

subsection \<open>The oracle's inner loop on a rectangular grid\<close>

lemma manhattan_move: "d \<in> set possible_moves \<Longrightarrow> manhattan p (move p d) = 1"
  by (auto simp: possible_moves_def manhattan_def move_def)

lemma step_move:
  assumes "rect grid" "d \<in> set possible_moves"
  shows "step grid p (move p d) \<longleftrightarrow> move p d \<in> cells grid \<and> cell grid (move p d) \<noteq> - 1"
  using manhattan_move [OF assms(2)] rect_in_bounds [OF assms(1)] by (simp add: step_def)

lemma step_is_move: "step grid p u \<Longrightarrow> \<exists>d \<in> set possible_moves. u = move p d"
  using manhattan_one_move [of "fst p" "snd p" u] by (simp add: step_def move_def)

lemma relax_moves_step:
  assumes rect: "rect grid" and d: "d \<in> set possible_moves"
  shows "relax_moves grid c0 x y (d # moves) st =
         relax_moves grid c0 x y moves (relax_pure grid c0 (x, y) st d)"
proof -
  obtain dx dy where dd: "d = (dx, dy)" by (cases d)
  obtain q vis where st: "st = (q, vis)" by (cases st)
  let ?u = "(x + dx, y + dy)"
  have mv: "move (x, y) (dx, dy) = ?u" by (simp add: move_def)
  note d' = d [unfolded dd]
  have g0: "py_getitem grid 0 = Inr (grid ! 0)"
    using rect by (simp add: rect_def py_getitem_def)
  show ?thesis
  proof (cases "?u \<in> cells grid")
    case True
    then have r: "0 \<le> x + dx" "x + dx < int (length grid)" "0 \<le> y + dy"
        "y + dy < int (length (grid ! 0))"
      by (simp_all add: cells_def)
    have g: "grid_at grid (x + dx) (y + dy) = Inr (cell grid ?u)"
      using rect_grid_at [OF rect True] by simp
    have s: "step grid (x, y) ?u \<longleftrightarrow> cell grid ?u \<noteq> - 1"
      using step_move [OF rect d', of "(x, y)"] True mv by simp
    show ?thesis
      by (simp add: dd st Let_def r g g0 relax_pure_def mv s)
  next
    case False
    then have r: "\<not> (0 \<le> x + dx \<and> x + dx < int (length grid) \<and> 0 \<le> y + dy \<and>
        y + dy < int (length (grid ! 0)))"
      by (simp add: cells_def)
    have s: "\<not> step grid (x, y) ?u"
      using step_move [OF rect d', of "(x, y)"] False mv by simp
    have "relax_moves grid c0 x y (d # moves) st = relax_moves grid c0 x y moves st"
      using r by (auto simp: dd st Let_def g0)
    then show ?thesis
      by (simp add: relax_pure_def mv s Let_def dd)
  qed
qed

lemma relax_moves_rect:
  assumes rect: "rect grid"
  shows "set moves \<subseteq> set possible_moves \<Longrightarrow>
         relax_moves grid c0 x y moves st = Inr (foldl (relax_pure grid c0 (x, y)) st moves)"
proof (induction moves arbitrary: st)
  case Nil
  then show ?case by (cases st) simp
next
  case (Cons d moves)
  then show ?case using relax_moves_step [OF rect] by simp
qed

subsection \<open>Walks and relaxation\<close>

lemma reachable_walk: "reachable grid s e \<longleftrightarrow> (\<exists>l. is_walk grid s e l)"
  by (simp add: reachable_def is_walk_def)

lemma is_walk_start: "is_walk grid s s [s]" "walk_cost grid [s] = 0"
  by (simp_all add: is_walk_def walk_cost_def)

lemma is_walk_extend:
  assumes "is_walk grid s v l" "step grid v u"
  shows "is_walk grid s u (l @ [u])" "walk_cost grid (l @ [u]) = walk_cost grid l + cell grid u"
proof -
  from assms(1) have l: "l \<noteq> []" "hd l = s" "last l = v" "successively (step grid) l"
    by (simp_all add: is_walk_def)
  show "is_walk grid s u (l @ [u])"
    using l assms(2) by (simp add: is_walk_def successively_append_iff)
  show "walk_cost grid (l @ [u]) = walk_cost grid l + cell grid u"
    using l(1) by (simp add: walk_cost_def)
qed

lemma relaxed_refl: "relaxed grid c0 p st st"
  by (auto simp: relaxed_def)

lemma cost_lt_visited_get:
  "cost_lt (Num nc) (visited_get vis u) \<longleftrightarrow> (case vis u of None \<Rightarrow> True | Some c \<Rightarrow> nc < c)"
  by (simp add: visited_get_def split: option.splits)

lemma relaxed_step:
  assumes "relaxed grid c0 p st st1"
  shows "relaxed grid c0 p st (relax_pure grid c0 p st1 d)"
proof (cases "step grid p (move p d) \<and>
              cost_lt (Num (c0 + cell grid (move p d))) (visited_get (snd st1) (move p d))")
  case False
  then have "relax_pure grid c0 p st1 d = st1"
    by (auto simp: relax_pure_def Let_def)
  then show ?thesis using assms by simp
next
  case True
  define u where "u = move p d"
  define nc where "nc = c0 + cell grid u"
  have st2: "relax_pure grid c0 p st1 d = (heappush tuple_lt (fst st1) (nc, u), (snd st1)(u \<mapsto> nc))"
    using True by (simp add: relax_pure_def Let_def u_def nc_def)
  have su: "step grid p u" and lt: "\<forall>c. snd st1 u = Some c \<longrightarrow> nc < c"
    using True by (auto simp: u_def nc_def cost_lt_visited_get split: option.splits)
  have a1: "set (fst st) \<subseteq> set (fst st1)"
    and a2: "\<forall>ent \<in> set (fst st1). ent \<in> set (fst st) \<or>
           (\<exists>u. ent = (c0 + cell grid u, u) \<and> step grid p u)"
    and a3: "\<forall>u c. snd st u = Some c \<longrightarrow> (\<exists>c'. snd st1 u = Some c' \<and> c' \<le> c)"
    and a4: "\<forall>u c'. snd st1 u = Some c' \<longrightarrow> snd st u = Some c' \<or>
           ((c', u) \<in> set (fst st1) \<and> c' = c0 + cell grid u \<and> step grid p u)"
    using assms unfolding relaxed_def by blast+
  have b1: "set (fst st) \<subseteq> insert (nc, u) (set (fst st1))"
    using a1 by auto
  have b2: "\<forall>ent \<in> insert (nc, u) (set (fst st1)). ent \<in> set (fst st) \<or>
           (\<exists>u. ent = (c0 + cell grid u, u) \<and> step grid p u)"
    using a2 su nc_def by blast
  have b3: "\<exists>c'. ((snd st1)(u \<mapsto> nc)) w = Some c' \<and> c' \<le> c" if "snd st w = Some c" for w c
  proof (cases "w = u")
    case True
    with a3 that obtain c' where "snd st1 u = Some c'" "c' \<le> c" by blast
    with lt have "nc \<le> c" by fastforce
    then show ?thesis using True by simp
  next
    case False
    then show ?thesis using a3 [rule_format, OF that] by simp
  qed
  have b4: "snd st w = Some c' \<or>
           ((c', w) \<in> insert (nc, u) (set (fst st1)) \<and> c' = c0 + cell grid w \<and> step grid p w)"
    if "((snd st1)(u \<mapsto> nc)) w = Some c'" for w c'
  proof (cases "w = u")
    case True
    then show ?thesis using that su nc_def by simp
  next
    case False
    then have "snd st1 w = Some c'" using that by simp
    from a4 [rule_format, OF this] show ?thesis by blast
  qed
  show ?thesis
    unfolding relaxed_def st2 using b1 b2 b3 b4 by (simp add: set_heappush)
qed

lemma relaxed_foldl: "relaxed grid c0 p st (foldl (relax_pure grid c0 p) st moves)"
  by (induction moves rule: rev_induct) (simp_all add: relaxed_refl relaxed_step)

lemma relax_pure_mono:
  "snd st1 u = Some c \<Longrightarrow>
   \<exists>c'. snd (relax_pure grid c0 p st1 d) u = Some c' \<and> c' \<le> c"
  by (auto simp: relax_pure_def Let_def cost_lt_visited_get)

lemma relax_pure_covers:
  "step grid p (move p d) \<Longrightarrow>
   \<exists>c'. snd (relax_pure grid c0 p st d) (move p d) = Some c' \<and> c' \<le> c0 + cell grid (move p d)"
  by (auto simp: relax_pure_def Let_def cost_lt_visited_get split: option.splits)

lemma foldl_relax_covers:
  "d \<in> set moves \<Longrightarrow> step grid p (move p d) \<Longrightarrow>
   \<exists>c'. snd (foldl (relax_pure grid c0 p) st moves) (move p d) = Some c' \<and>
        c' \<le> c0 + cell grid (move p d)"
proof (induction moves rule: rev_induct)
  case Nil
  then show ?case by simp
next
  case (snoc d' moves)
  show ?case
  proof (cases "d = d'")
    case True
    then show ?thesis using relax_pure_covers [OF snoc.prems(2)] by simp
  next
    case False
    then have "d \<in> set moves" using snoc.prems(1) by simp
    from snoc.IH [OF this snoc.prems(2)] obtain c' where
      c': "snd (foldl (relax_pure grid c0 p) st moves) (move p d) = Some c'"
          "c' \<le> c0 + cell grid (move p d)" by blast
    from relax_pure_mono [OF c'(1), of grid c0 p d'] c'(2)
    show ?thesis by fastforce
  qed
qed

subsection \<open>The oracle's invariant\<close>

lemma oinv_init: "oinv grid s e [(0, s)] [s \<mapsto> 0]"
  unfolding oinv_def using is_walk_start [of grid s] by auto

lemma oinv_step:
  assumes inv: "oinv grid s e queue visited"
    and pop: "heappop tuple_lt queue = Inr ((c0, v0), queue1)"
    and ne: "v0 \<noteq> e"
    and st2: "st2 = foldl (relax_pure grid c0 v0) (queue1, visited) possible_moves"
  shows "oinv grid s e (fst st2) (snd st2)"
proof -
  have i1: "\<forall>ent \<in> set queue. \<exists>l. is_walk grid s (snd ent) l \<and> walk_cost grid l = fst ent"
    and i2: "\<exists>c \<le> 0. visited s = Some c"
    and i3: "\<forall>v c. visited v = Some c \<longrightarrow>
         (c, v) \<in> set queue \<or>
         (v \<noteq> e \<and> (\<forall>u. step grid v u \<longrightarrow> (\<exists>c'. visited u = Some c' \<and> c' \<le> c + cell grid u)))"
    using inv unfolding oinv_def by blast+
  have setq: "set queue = insert (c0, v0) (set queue1)"
    using set_heappop [OF pop] .
  have rel: "relaxed grid c0 v0 (queue1, visited) st2"
    unfolding st2 by (rule relaxed_foldl)
  have r1: "set queue1 \<subseteq> set (fst st2)"
    and r2: "\<forall>ent \<in> set (fst st2). ent \<in> set queue1 \<or>
           (\<exists>u. ent = (c0 + cell grid u, u) \<and> step grid v0 u)"
    and r3: "\<forall>u c. visited u = Some c \<longrightarrow> (\<exists>c'. snd st2 u = Some c' \<and> c' \<le> c)"
    and r4: "\<forall>u c'. snd st2 u = Some c' \<longrightarrow> visited u = Some c' \<or>
           ((c', u) \<in> set (fst st2) \<and> c' = c0 + cell grid u \<and> step grid v0 u)"
    using rel unfolding relaxed_def by simp_all
  obtain l0 where l0: "is_walk grid s v0 l0" "walk_cost grid l0 = c0"
    using i1 setq by fastforce
  have covers: "\<exists>c'. snd st2 u = Some c' \<and> c' \<le> c0 + cell grid u" if "step grid v0 u" for u
  proof -
    from step_is_move [OF that] obtain d where d: "d \<in> set possible_moves" "u = move v0 d"
      by blast
    from foldl_relax_covers [OF d(1), of grid v0 c0 "(queue1, visited)"] that d(2)
    show ?thesis by (simp add: st2)
  qed
  have c1: "\<exists>l. is_walk grid s (snd ent) l \<and> walk_cost grid l = fst ent"
    if "ent \<in> set (fst st2)" for ent
  proof -
    from r2 that consider "ent \<in> set queue1"
      | u where "ent = (c0 + cell grid u, u)" "step grid v0 u" by blast
    then show ?thesis
    proof cases
      case 1
      then show ?thesis using i1 setq by simp
    next
      case 2
      from is_walk_extend [OF l0(1) 2(2)] l0(2) 2(1) show ?thesis by auto
    qed
  qed
  have c2: "\<exists>c \<le> 0. snd st2 s = Some c"
    using i2 r3 by (meson order_trans)
  have c3: "(c, v) \<in> set (fst st2) \<or>
         (v \<noteq> e \<and> (\<forall>u. step grid v u \<longrightarrow> (\<exists>c'. snd st2 u = Some c' \<and> c' \<le> c + cell grid u)))"
    if v: "snd st2 v = Some c" for v c
  proof -
    from r4 [rule_format, OF v] consider "visited v = Some c" | "(c, v) \<in> set (fst st2)"
      by blast
    then show ?thesis
    proof cases
      case 2
      then show ?thesis by simp
    next
      case 1
      from i3 [rule_format, OF 1] consider "(c, v) \<in> set queue1" | "(c, v) = (c0, v0)"
        | "v \<noteq> e \<and> (\<forall>u. step grid v u \<longrightarrow> (\<exists>c'. visited u = Some c' \<and> c' \<le> c + cell grid u))"
        using setq by auto
      then show ?thesis
      proof cases
        case 1
        then show ?thesis using r1 by auto
      next
        case 2
        then show ?thesis using covers ne by simp
      next
        case 3
        have "\<exists>c'. snd st2 u = Some c' \<and> c' \<le> c + cell grid u" if "step grid v u" for u
        proof -
          from 3 that obtain c' where "visited u = Some c'" "c' \<le> c + cell grid u" by blast
          with r3 show ?thesis by (meson order_trans)
        qed
        then show ?thesis using 3 by blast
      qed
    qed
  qed
  show ?thesis
    unfolding oinv_def using c1 c2 c3 by blast
qed

lemma oinv_empty:
  assumes "oinv grid s e [] visited"
  shows "\<not> reachable grid s e"
proof
  assume "reachable grid s e"
  then obtain l where l: "l \<noteq> []" "hd l = s" "last l = e" "successively (step grid) l"
    by (auto simp: reachable_def)
  have i2: "s \<in> dom visited"
    and i3: "\<forall>v \<in> dom visited. v \<noteq> e \<and> (\<forall>u. step grid v u \<longrightarrow> u \<in> dom visited)"
    using assms unfolding oinv_def by fastforce+
  then have "\<forall>v \<in> dom visited. \<forall>u. step grid v u \<longrightarrow> u \<in> dom visited" by blast
  from step_closed_walk [OF this l(4) l(1)] i2 l(2,3) have "e \<in> dom visited" by simp
  with i3 show False by blast
qed

lemma find_optimal_cost_loop_sound:
  assumes "find_optimal_cost_loop grid e queue visited = Some r"
  shows "rect grid \<longrightarrow> oinv grid s e queue visited \<longrightarrow>
         (\<forall>err. r \<noteq> Inl err) \<and> (r = Inr PosInf \<longrightarrow> \<not> reachable grid s e) \<and>
         (\<forall>c. r = Inr (Num c) \<longrightarrow> (\<exists>l. is_walk grid s e l \<and> walk_cost grid l = c))"
  using assms
proof (induction rule: find_optimal_cost_loop.raw_induct [rotated 1, consumes 1, case_names step])
  case (step loop grid e queue visited r)
  show ?case
  proof (intro impI)
    assume rect: "rect grid" and inv: "oinv grid s e queue visited"
    show "(\<forall>err. r \<noteq> Inl err) \<and> (r = Inr PosInf \<longrightarrow> \<not> reachable grid s e) \<and>
         (\<forall>c. r = Inr (Num c) \<longrightarrow> (\<exists>l. is_walk grid s e l \<and> walk_cost grid l = c))"
    proof (cases "queue = []")
      case True
      then show ?thesis using step(2) inv oinv_empty by auto
    next
      case False
      then obtain ent queue1 where pop0: "heappop tuple_lt queue = Inr (ent, queue1)"
        using heappop_nonempty by blast
      obtain c0 x y where ent: "ent = (c0, (x, y))" by (cases ent) auto
      note pop = pop0 [unfolded ent]
      show ?thesis
      proof (cases "(x, y) = e")
        case True
        have "(c0, e) \<in> set queue" using set_heappop [OF pop] True by simp
        then obtain l where "is_walk grid s e l" "walk_cost grid l = c0"
          using inv unfolding oinv_def by fastforce
        then show ?thesis using step(2) False pop True by auto
      next
        case ne: False
        define st2 where "st2 = foldl (relax_pure grid c0 (x, y)) (queue1, visited) possible_moves"
        have rel: "relax_moves grid c0 x y possible_moves (queue1, visited) = Inr st2"
          unfolding st2_def by (rule relax_moves_rect [OF rect]) simp
        have rec: "loop grid e (fst st2) (snd st2) = Some r"
          using step(2) False pop ne rel by (cases st2) simp
        from oinv_step [OF inv pop ne st2_def]
        show ?thesis using step(1) [OF rec] rect by blast
      qed
    qed
  qed
qed

subsection \<open>The oracle's loop returns\<close>

lemma nonneg_cell:
  assumes "nonneg grid" "in_bounds grid u"
  shows "- 1 \<le> cell grid u"
proof -
  have "nat (fst u) < length grid" "nat (snd u) < length (grid ! nat (fst u))"
    using assms(2) unfolding in_bounds_def by linarith+
  then have "grid ! nat (fst u) \<in> set grid" "cell grid u \<in> set (grid ! nat (fst u))"
    by (simp_all add: cell_def)
  then show ?thesis using assms(1) unfolding nonneg_def by blast
qed

lemma nonneg_step: "nonneg grid \<Longrightarrow> step grid p u \<Longrightarrow> 0 \<le> cell grid u"
  using nonneg_cell [of grid u] by (auto simp: step_def)

lemma key_less_trans: "(a, b) \<in> key_less \<Longrightarrow> (b, c) \<in> key_less \<Longrightarrow> (a, c) \<in> key_less"
  unfolding key_less_def by (cases a, cases b, cases c) auto

lemma update_unseen:
  assumes "u \<in> cells grid" "vis u = None"
  shows "unseen grid (vis(u \<mapsto> nc)) < unseen grid vis"
proof -
  let ?A = "{w \<in> cells grid. vis w = None}"
  have e: "{w \<in> cells grid. (vis(u \<mapsto> nc)) w = None} = ?A - {u}"
    by auto
  have "u \<in> ?A" using assms by simp
  moreover have "finite ?A" using finite_cells by simp
  ultimately have "card (?A - {u}) < card ?A" by (rule card_Diff1_less [rotated])
  then show ?thesis
    unfolding unseen_def e .
qed

lemma update_total:
  assumes "u \<in> cells grid" "vis u = Some c" "0 \<le> nc" "nc < c"
  shows "unseen grid (vis(u \<mapsto> nc)) = unseen grid vis \<and> total grid (vis(u \<mapsto> nc)) < total grid vis"
proof -
  let ?f = "\<lambda>vis w. case vis w of None \<Rightarrow> 0 | Some c \<Rightarrow> nat c"
  have "{w \<in> cells grid. (vis(u \<mapsto> nc)) w = None} = {w \<in> cells grid. vis w = None}"
    using assms(2) by auto
  then have a: "unseen grid (vis(u \<mapsto> nc)) = unseen grid vis" by (simp add: unseen_def)
  have s1: "total grid vis = ?f vis u + (\<Sum>w \<in> cells grid - {u}. ?f vis w)"
    unfolding total_def using finite_cells assms(1) by (rule sum.remove)
  have s2: "total grid (vis(u \<mapsto> nc)) =
      ?f (vis(u \<mapsto> nc)) u + (\<Sum>w \<in> cells grid - {u}. ?f (vis(u \<mapsto> nc)) w)"
    unfolding total_def using finite_cells assms(1) by (rule sum.remove)
  have s3: "(\<Sum>w \<in> cells grid - {u}. ?f (vis(u \<mapsto> nc)) w) = (\<Sum>w \<in> cells grid - {u}. ?f vis w)"
    by (rule sum.cong) auto
  have "?f (vis(u \<mapsto> nc)) u < ?f vis u" using assms(2,3,4) by simp
  then show ?thesis using a s1 s2 s3 by simp
qed

lemma relax_pure_decreases:
  assumes rect: "rect grid" and nn: "nonneg grid" and c0: "0 \<le> c0"
    and q: "\<forall>ent \<in> set (fst st). 0 \<le> fst ent"
  shows "(relax_pure grid c0 p st d = st \<or> (okey grid (relax_pure grid c0 p st d), okey grid st) \<in> key_less)
         \<and> (\<forall>ent \<in> set (fst (relax_pure grid c0 p st d)). 0 \<le> fst ent)"
proof (cases "step grid p (move p d) \<and>
              cost_lt (Num (c0 + cell grid (move p d))) (visited_get (snd st) (move p d))")
  case False
  then have "relax_pure grid c0 p st d = st"
    by (auto simp: relax_pure_def Let_def)
  then show ?thesis using q by simp
next
  case True
  define u where "u = move p d"
  define nc where "nc = c0 + cell grid u"
  have st2: "relax_pure grid c0 p st d = (heappush tuple_lt (fst st) (nc, u), (snd st)(u \<mapsto> nc))"
    using True by (simp add: relax_pure_def Let_def u_def nc_def)
  have su: "step grid p u" and lt: "\<forall>c. snd st u = Some c \<longrightarrow> nc < c"
    using True by (auto simp: u_def nc_def cost_lt_visited_get split: option.splits)
  have uc: "u \<in> cells grid" using su rect_in_bounds [OF rect] by (simp add: step_def)
  have nc0: "0 \<le> nc" using nonneg_step [OF nn su] c0 by (simp add: nc_def)
  have "(okey grid (relax_pure grid c0 p st d), okey grid st) \<in> key_less"
  proof (cases "snd st u")
    case None
    from update_unseen [where vis = "snd st" and nc = nc, OF uc None] show ?thesis
      by (simp add: st2 okey_def key_less_def)
  next
    case (Some c)
    with lt have "nc < c" by simp
    from update_total [where vis = "snd st", OF uc Some nc0 this] show ?thesis
      by (simp add: st2 okey_def key_less_def)
  qed
  moreover have "\<forall>ent \<in> set (fst (relax_pure grid c0 p st d)). 0 \<le> fst ent"
    using q nc0 by (simp add: st2 set_heappush)
  ultimately show ?thesis by simp
qed

lemma foldl_relax_decreases:
  assumes rect: "rect grid" and nn: "nonneg grid" and c0: "0 \<le> c0"
    and q: "\<forall>ent \<in> set (fst st). 0 \<le> fst ent"
  shows "(foldl (relax_pure grid c0 p) st moves = st \<or>
          (okey grid (foldl (relax_pure grid c0 p) st moves), okey grid st) \<in> key_less)
         \<and> (\<forall>ent \<in> set (fst (foldl (relax_pure grid c0 p) st moves)). 0 \<le> fst ent)"
proof (induction moves rule: rev_induct)
  case Nil
  then show ?case using q by simp
next
  case (snoc d moves)
  let ?st1 = "foldl (relax_pure grid c0 p) st moves"
  from snoc have ih: "?st1 = st \<or> (okey grid ?st1, okey grid st) \<in> key_less"
    and q1: "\<forall>ent \<in> set (fst ?st1). 0 \<le> fst ent" by simp_all
  from relax_pure_decreases [OF rect nn c0 q1, of p d]
  have d: "relax_pure grid c0 p ?st1 d = ?st1 \<or>
           (okey grid (relax_pure grid c0 p ?st1 d), okey grid ?st1) \<in> key_less"
    and q2: "\<forall>ent \<in> set (fst (relax_pure grid c0 p ?st1 d)). 0 \<le> fst ent" by simp_all
  from ih d have "relax_pure grid c0 p ?st1 d = st \<or>
           (okey grid (relax_pure grid c0 p ?st1 d), okey grid st) \<in> key_less"
    using key_less_trans by metis
  then show ?case using q2 by simp
qed

lemma wf_oracle_less: "wf (oracle_less grid)"
  unfolding oracle_less_def key_less_def by auto

lemma heappop_length:
  "heappop lt heap = Inr (a, heap') \<Longrightarrow> length heap = Suc (length heap')"
  using heappop_mset [of lt heap a heap'] by (metis size_add_mset size_mset)

lemma find_optimal_cost_loop_terminates:
  assumes rect: "rect grid" and nn: "nonneg grid"
  shows "(\<forall>ent \<in> set (fst st). 0 \<le> fst ent) \<Longrightarrow>
         \<exists>r. find_optimal_cost_loop grid e (fst st) (snd st) = Some r"
proof (induction st rule: wf_induct_rule [OF wf_oracle_less [of grid]])
  case (1 st)
  obtain queue visited where st: "st = (queue, visited)" by (cases st)
  show ?case
  proof (cases "queue = []")
    case True
    then show ?thesis by (subst find_optimal_cost_loop.simps) (simp add: st)
  next
    case False
    then obtain ent queue1 where pop0: "heappop tuple_lt queue = Inr (ent, queue1)"
      using heappop_nonempty by blast
    obtain c0 x y where ent: "ent = (c0, (x, y))" by (cases ent) auto
    note pop = pop0 [unfolded ent]
    show ?thesis
    proof (cases "(x, y) = e")
      case True
      have "find_optimal_cost_loop grid (x, y) queue visited = Some (Inr (Num c0))"
        using False pop by (subst find_optimal_cost_loop.simps) simp
      then show ?thesis using True by (auto simp: st)
    next
      case ne: False
      define st2 where "st2 = foldl (relax_pure grid c0 (x, y)) (queue1, visited) possible_moves"
      have rel: "relax_moves grid c0 x y possible_moves (queue1, visited) = Inr st2"
        unfolding st2_def by (rule relax_moves_rect [OF rect]) simp
      have setq: "set queue = insert (c0, (x, y)) (set queue1)"
        using set_heappop [OF pop] .
      have c0: "0 \<le> c0" and q1: "\<forall>ent \<in> set (fst (queue1, visited)). 0 \<le> fst ent"
        using "1.prems" setq by (auto simp: st)
      from foldl_relax_decreases [OF rect nn c0 q1, of "(x, y)" possible_moves]
      have d: "st2 = (queue1, visited) \<or> (okey grid st2, okey grid (queue1, visited)) \<in> key_less"
        and q2: "\<forall>ent \<in> set (fst st2). 0 \<le> fst ent"
        by (simp_all add: st2_def)
      have "okey grid (queue1, visited) = okey grid st" by (simp add: okey_def st)
      moreover have "length queue1 < length queue" using heappop_length [OF pop] by simp
      ultimately have "(st2, st) \<in> oracle_less grid"
        using d by (auto simp: oracle_less_def st)
      from "1.IH" [OF this q2] obtain r where
        "find_optimal_cost_loop grid e (fst st2) (snd st2) = Some r" by blast
      then show ?thesis
        using False pop ne rel
        by (subst find_optimal_cost_loop.simps) (cases st2, simp add: st)
    qed
  qed
qed

subsection \<open>Absent path and infinite cost\<close>

lemma find_optimal_cost_total:
  assumes rect: "rect grid" and nn: "nonneg grid"
  shows "\<exists>r. find_optimal_cost grid s e = Some (Inr r) \<and>
           (r = PosInf \<longrightarrow> \<not> reachable grid s e) \<and>
           (\<forall>c. r = Num c \<longrightarrow> (\<exists>l. is_walk grid s e l \<and> walk_cost grid l = c))"
proof -
  have "\<forall>ent \<in> set (fst ([(0::int, s)], [s \<mapsto> (0::int)])). 0 \<le> fst ent" by simp
  from find_optimal_cost_loop_terminates [OF rect nn this, of e] obtain r where
    r: "find_optimal_cost_loop grid e [(0, s)] [s \<mapsto> 0] = Some r" by auto
  from find_optimal_cost_loop_sound [OF r, of s] rect oinv_init [of grid s e]
  have noerr: "\<forall>err. r \<noteq> Inl err"
    and inf: "r = Inr PosInf \<longrightarrow> \<not> reachable grid s e"
    and num: "\<forall>c. r = Inr (Num c) \<longrightarrow> (\<exists>l. is_walk grid s e l \<and> walk_cost grid l = c)"
    by blast+
  from noerr obtain c where "r = Inr c" by (cases r) auto
  then show ?thesis using r inf num by (simp add: find_optimal_cost_def)
qed

text \<open>
  C3. For every grid of the data model (a rows x cols matrix whose cells are the sentinel
  \<open>-1\<close> or non-negative costs: \<open>rect\<close> and \<open>nonneg\<close>) and every in-bounds start,
  \<open>astar_correct\<close> returns an absent path with infinite cost exactly when
  \<open>find_optimal_cost\<close> returns infinite cost; whenever the oracle reports a finite cost
  the engine reports a present path; and when the end cannot be reached from the start
  through passable cells (a wall separates them), both report that no path exists.
\<close>

theorem absent_iff_infinite:
  assumes "rect grid" and "nonneg grid" and "in_bounds grid s"
  shows "(astar_correct grid s e = Some (Inr (None, PosInf)) \<longleftrightarrow>
            find_optimal_cost grid s e = Some (Inr PosInf)) \<and>
         (\<forall>c. find_optimal_cost grid s e = Some (Inr (Num c)) \<longrightarrow>
            (\<exists>path c'. astar_correct grid s e = Some (Inr (Some path, c')))) \<and>
         (\<not> reachable grid s e \<longrightarrow>
            astar_correct grid s e = Some (Inr (None, PosInf)) \<and>
            find_optimal_cost grid s e = Some (Inr PosInf))"
proof -
  from astar_correct_total [OF assms(1,3), of e] obtain p c where
    a: "astar_correct grid s e = Some (Inr (p, c))"
    and a1: "p = None \<longrightarrow> c = PosInf \<and> \<not> reachable grid s e"
    and a2: "p \<noteq> None \<longrightarrow> reachable grid s e"
    by auto
  from find_optimal_cost_total [OF assms(1,2), of s e] obtain r where
    o: "find_optimal_cost grid s e = Some (Inr r)"
    and o1: "r = PosInf \<longrightarrow> \<not> reachable grid s e"
    and o2: "\<forall>c. r = Num c \<longrightarrow> (\<exists>l. is_walk grid s e l \<and> walk_cost grid l = c)"
    by blast
  have o3: "r \<noteq> PosInf \<longrightarrow> reachable grid s e"
    using o2 by (cases r) (auto simp: reachable_walk)
  show ?thesis
    using a a1 a2 o o1 o3 by (cases p; cases r) auto
qed

lemma wall_absent: "astar_correct [[1, - 1, 1]] (0, 0) (0, 2) = Some (Inr (None, PosInf))"
  by code_simp

theorem absent_iff_infinite_witness:
  "rect [[1, - 1, 1]] \<and> nonneg [[1, - 1, 1]] \<and> in_bounds [[1, - 1, 1]] (0, 0) \<and>
   astar_correct [[1, - 1, 1]] (0, 0) (0, 2) = Some (Inr (None, PosInf)) \<and>
   find_optimal_cost [[1, - 1, 1]] (0, 0) (0, 2) = Some (Inr PosInf)"
proof -
  have h1: "rect [[1, - 1, 1]]" by (simp add: rect_def)
  have h2: "nonneg [[1, - 1, 1]]" by (simp add: nonneg_def)
  have h3: "in_bounds [[1, - 1, 1]] (0, 0)" by (simp add: in_bounds_def)
  show ?thesis
    using h1 h2 h3 wall_absent absent_iff_infinite [OF h1 h2 h3, of "(0, 2)"] by simp
qed

subsection \<open>A grid on which the oracle never returns\<close>

lemma heappush_empty: "heappush lt [] a = [a]"
  by (simp add: heappush_def siftdown_def siftdown_loop.simps)

lemma bouncing_lt:
  "\<forall>u c'. visited u = Some c' \<longrightarrow> c \<le> c' \<Longrightarrow> cost_lt (Num (c + - 2)) (visited_get visited u)"
proof (cases "visited u")
  case None
  then show ?thesis by (simp add: visited_get_def)
next
  case (Some c')
  assume "\<forall>u c'. visited u = Some c' \<longrightarrow> c \<le> c'"
  from this [rule_format, OF Some] show ?thesis by (simp add: visited_get_def Some)
qed

lemma relax_neg_00:
  assumes "\<forall>u c'. visited u = Some c' \<longrightarrow> c \<le> c'"
  shows "relax_moves neg_grid c 0 0 possible_moves ([], visited) =
           Inr ([(c + - 2, (0, 1))], visited((0, 1) \<mapsto> c + - 2))"
  using bouncing_lt [OF assms, of "(0, 1)"]
  by (simp add: possible_moves_def neg_grid_def Let_def grid_at_def py_getitem_def heappush_empty)

lemma relax_neg_01:
  assumes "\<forall>u c'. visited u = Some c' \<longrightarrow> c \<le> c'"
  shows "relax_moves neg_grid c 0 1 possible_moves ([], visited) =
           Inr ([(c + - 2, (0, 0))], visited((0, 0) \<mapsto> c + - 2))"
  using bouncing_lt [OF assms, of "(0, 0)"]
  by (simp add: possible_moves_def neg_grid_def Let_def grid_at_def py_getitem_def heappush_empty)

lemma bouncing_update:
  assumes "\<forall>u c'. visited u = Some c' \<longrightarrow> c \<le> c'" "v = (0, 0) \<or> v = (0, 1)"
  shows "bouncing [(c + - 2, v)] (visited(w \<mapsto> c + - 2))"
  unfolding bouncing_def using assms by (auto split: if_splits) fastforce+

lemma find_optimal_cost_loop_bounces:
  assumes "find_optimal_cost_loop grid e queue visited = Some r"
  shows "grid = neg_grid \<longrightarrow> e = (0, 3) \<longrightarrow> bouncing queue visited \<longrightarrow> False"
  using assms
proof (induction rule: find_optimal_cost_loop.raw_induct [rotated 1, consumes 1, case_names step])
  case (step loop grid e queue visited r)
  show ?case
  proof (intro impI)
    assume g: "grid = neg_grid" and e: "e = (0, 3)" and b: "bouncing queue visited"
    from b obtain c v where q: "queue = [(c, v)]" and v: "v = (0, 0) \<or> v = (0, 1)"
      and le: "\<forall>u c'. visited u = Some c' \<longrightarrow> c \<le> c'"
      unfolding bouncing_def by blast
    from v show False
    proof
      assume v0: "v = (0, 0)"
      have "loop neg_grid (0, 3) [(c + - 2, (0, 1))] (visited((0, 1) \<mapsto> c + - 2)) = Some r"
        using step(2) relax_neg_00 [OF le] by (simp add: g e q v0 heappop_single)
      moreover have "bouncing [(c + - 2, (0, 1))] (visited((0, 1) \<mapsto> c + - 2))"
        using le by (intro bouncing_update) simp_all
      ultimately show False using step(1) by blast
    next
      assume v1: "v = (0, 1)"
      have "loop neg_grid (0, 3) [(c + - 2, (0, 0))] (visited((0, 0) \<mapsto> c + - 2)) = Some r"
        using step(2) relax_neg_01 [OF le] by (simp add: g e q v1 heappop_single)
      moreover have "bouncing [(c + - 2, (0, 0))] (visited((0, 0) \<mapsto> c + - 2))"
        using le by (intro bouncing_update) simp_all
      ultimately show False using step(1) by blast
    qed
  qed
qed

lemma neg_grid_oracle_diverges: "find_optimal_cost neg_grid (0, 0) (0, 3) = None"
proof (cases "find_optimal_cost neg_grid (0, 0) (0, 3)")
  case None
  then show ?thesis .
next
  case (Some r)
  then have "find_optimal_cost_loop neg_grid (0, 3) [(0, (0, 0))] [(0, 0) \<mapsto> 0] = Some r"
    by (simp add: find_optimal_cost_def)
  moreover have "bouncing [(0, (0, 0))] [(0, 0) \<mapsto> 0]"
    by (auto simp: bouncing_def)
  ultimately show ?thesis using find_optimal_cost_loop_bounces by blast
qed

lemma neg_grid_astar: "astar_correct neg_grid (0, 0) (0, 3) = Some (Inr (None, PosInf))"
  by code_simp

text \<open>
  Outside the data model, with two adjacent cells of negative cost and a wall before the
  end: the engine reports no path, and the oracle lowers the two costs in turn for ever,
  so it never returns. The hypothesis \<open>nonneg\<close> cannot be dropped.
\<close>

lemma negative_costs_oracle_never_returns:
  "in_bounds [[- 2, - 2, - 1, 1]] (0, 0) \<and> in_bounds [[- 2, - 2, - 1, 1]] (0, 3) \<and>
   astar_correct [[- 2, - 2, - 1, 1]] (0, 0) (0, 3) = Some (Inr (None, PosInf)) \<and>
   find_optimal_cost [[- 2, - 2, - 1, 1]] (0, 0) (0, 3) \<noteq> Some (Inr PosInf)"
  using neg_grid_astar neg_grid_oracle_diverges
  by (simp add: neg_grid_def in_bounds_def)

text \<open>
  Outside the data model as well, with rows of different lengths: the oracle returns cost
  0 and the engine raises \<^verbatim>\<open>IndexError\<close> when it reads past the short row. The hypothesis
  \<open>rect\<close> cannot be dropped either.
\<close>

lemma jagged_rows_engine_raises:
  "nonneg [[0, 0, 0, 9], [0, - 1, 2], [0, 0, 0, 9]] \<and>
   \<not> rect [[0, 0, 0, 9], [0, - 1, 2], [0, 0, 0, 9]] \<and>
   in_bounds [[0, 0, 0, 9], [0, - 1, 2], [0, 0, 0, 9]] (0, 2) \<and>
   in_bounds [[0, 0, 0, 9], [0, - 1, 2], [0, 0, 0, 9]] (2, 2) \<and>
   find_optimal_cost [[0, 0, 0, 9], [0, - 1, 2], [0, 0, 0, 9]] (0, 2) (2, 2) = Some (Inr (Num 0)) \<and>
   astar_correct [[0, 0, 0, 9], [0, - 1, 2], [0, 0, 0, 9]] (0, 2) (2, 2) = Some (Inl IndexError)"
  by code_simp

subsection \<open>The heap order under pushes\<close>

lemma weak_order_asym: "weak_order lt \<Longrightarrow> lt a b \<Longrightarrow> \<not> lt b a"
  unfolding weak_order_def by blast

lemma weak_order_refl: "weak_order lt \<Longrightarrow> \<not> lt a a"
  unfolding weak_order_def by blast

lemma weak_order_trans: "weak_order lt \<Longrightarrow> \<not> lt b a \<Longrightarrow> \<not> lt c b \<Longrightarrow> \<not> lt c a"
  unfolding weak_order_def by blast

lemma heap_ok_min:
  assumes wo: "weak_order lt" and ok: "heap_ok lt h"
  shows "i < length h \<Longrightarrow> \<not> lt (h ! i) (h ! 0)"
proof (induction i rule: less_induct)
  case (less i)
  show ?case
  proof (cases "i = 0")
    case True
    then show ?thesis using weak_order_refl [OF wo] by simp
  next
    case False
    let ?p = "(i - 1) div 2"
    have p: "?p < i" using False by auto
    then have "\<not> lt (h ! ?p) (h ! 0)" using less by simp
    moreover have "\<not> lt (h ! i) (h ! ?p)" using ok False less.prems by (simp add: heap_ok_def)
    ultimately show ?thesis by (rule weak_order_trans [OF wo])
  qed
qed

lemma siftdown_loop_heap_ok:
  assumes wo: "weak_order lt"
  shows "pos < length heap \<Longrightarrow>
    (\<forall>i. 0 < i \<and> i < length heap \<and> i \<noteq> pos \<longrightarrow> \<not> lt (heap ! i) (heap ! ((i - 1) div 2))) \<Longrightarrow>
    \<not> lt (heap ! pos) newitem \<Longrightarrow>
    (0 < pos \<longrightarrow> (\<forall>i. 0 < i \<and> i < length heap \<and> (i - 1) div 2 = pos \<longrightarrow>
        \<not> lt (heap ! i) (heap ! ((pos - 1) div 2)))) \<Longrightarrow>
    heap_ok lt (siftdown_loop lt heap 0 newitem pos)"
proof (induction pos arbitrary: heap rule: less_induct)
  case (less pos)
  let ?pp = "(pos - 1) div 2"
  note a = less.prems(2) and b = less.prems(3) and c = less.prems(4)
  show ?case
  proof (cases "0 < pos \<and> lt newitem (heap ! ?pp)")
    case True
    define heap' where "heap' = heap[pos := heap ! ?pp]"
    have pp: "?pp < pos" using True by auto
    have eq: "siftdown_loop lt heap 0 newitem pos = siftdown_loop lt heap' 0 newitem ?pp"
      using True by (subst siftdown_loop.simps) (simp add: Let_def heap'_def)
    have len: "length heap' = length heap" by (simp add: heap'_def)
    have nth: "heap' ! j = (if j = pos then heap ! ?pp else heap ! j)" if "j < length heap" for j
      using that by (simp add: heap'_def nth_list_update)
    have a': "\<not> lt (heap' ! i) (heap' ! ((i - 1) div 2))"
      if i: "0 < i" "i < length heap'" "i \<noteq> ?pp" for i
    proof -
      have il: "i < length heap" "(i - 1) div 2 < length heap" using i len by auto
      show ?thesis
      proof (cases "i = pos")
        case True
        then show ?thesis using il pp weak_order_refl [OF wo] by (simp add: nth)
      next
        case ne: False
        show ?thesis
        proof (cases "(i - 1) div 2 = pos")
          case True
          then have "\<not> lt (heap ! i) (heap ! ?pp)"
            using c [rule_format, of i] i il \<open>0 < pos \<and> _\<close> by simp
          then show ?thesis using il ne True by (simp add: nth)
        next
          case False
          then show ?thesis using a [rule_format, of i] i il ne by (simp add: nth)
        qed
      qed
    qed
    have b': "\<not> lt (heap' ! ?pp) newitem"
      using True pp less.prems(1) weak_order_asym [OF wo] by (simp add: nth)
    have c': "\<not> lt (heap' ! i) (heap' ! ((?pp - 1) div 2))"
      if i: "0 < ?pp" "0 < i" "i < length heap'" "(i - 1) div 2 = ?pp" for i
    proof -
      have il: "i < length heap" using i len by simp
      have gp: "(?pp - 1) div 2 < ?pp" using i(1) by auto
      have gpl: "(?pp - 1) div 2 < length heap" "?pp < length heap"
        using gp pp less.prems(1) by auto
      have g: "heap' ! ((?pp - 1) div 2) = heap ! ((?pp - 1) div 2)"
        using gp pp gpl by (simp add: nth)
      have e1: "\<not> lt (heap ! ?pp) (heap ! ((?pp - 1) div 2))"
        using a i(1) gpl pp by simp
      show ?thesis
      proof (cases "i = pos")
        case True
        then show ?thesis using il g e1 by (simp add: nth)
      next
        case False
        then have "\<not> lt (heap ! i) (heap ! ((i - 1) div 2))"
          using a [rule_format, of i] i(2) il by simp
        then have "\<not> lt (heap ! i) (heap ! ?pp)" using i(4) by simp
        with e1 have "\<not> lt (heap ! i) (heap ! ((?pp - 1) div 2))"
          by (rule weak_order_trans [OF wo])
        then show ?thesis using il g False by (simp add: nth)
      qed
    qed
    have "heap_ok lt (siftdown_loop lt heap' 0 newitem ?pp)"
    proof (rule less.IH [OF pp])
      show "?pp < length heap'" using pp less.prems(1) len by simp
      show "\<forall>i. 0 < i \<and> i < length heap' \<and> i \<noteq> ?pp \<longrightarrow> \<not> lt (heap' ! i) (heap' ! ((i - 1) div 2))"
        using a' by blast
      show "\<not> lt (heap' ! ?pp) newitem" by (rule b')
      show "0 < ?pp \<longrightarrow> (\<forall>i. 0 < i \<and> i < length heap' \<and> (i - 1) div 2 = ?pp \<longrightarrow>
              \<not> lt (heap' ! i) (heap' ! ((?pp - 1) div 2)))"
        using c' by blast
    qed
    then show ?thesis using eq by simp
  next
    case False
    have eq: "siftdown_loop lt heap 0 newitem pos = heap[pos := newitem]"
      using False by (subst siftdown_loop.simps) (auto simp: Let_def)
    have "\<not> lt (heap[pos := newitem] ! i) (heap[pos := newitem] ! ((i - 1) div 2))"
      if i: "0 < i" "i < length heap" for i
    proof -
      have il: "(i - 1) div 2 < length heap" "(i - 1) div 2 \<noteq> i" using i by auto
      show ?thesis
      proof (cases "i = pos")
        case True
        then show ?thesis using False i il by (simp add: nth_list_update)
      next
        case ne: False
        show ?thesis
        proof (cases "(i - 1) div 2 = pos")
          case True
          have "\<not> lt (heap ! i) (heap ! ((i - 1) div 2))"
            using a [rule_format, of i] i ne by simp
          then have "\<not> lt (heap ! i) (heap ! pos)" using True by simp
          with b have "\<not> lt (heap ! i) newitem" by (rule weak_order_trans [OF wo])
          then show ?thesis using ne True i il by (simp add: nth_list_update)
        next
          case False
          then show ?thesis using a [rule_format, of i] i il ne by (simp add: nth_list_update)
        qed
      qed
    qed
    then show ?thesis by (simp add: eq heap_ok_def)
  qed
qed

lemma heappush_heap_ok:
  assumes wo: "weak_order lt" and ok: "heap_ok lt heap"
  shows "heap_ok lt (heappush lt heap item)"
  unfolding heappush_def siftdown_def
proof (rule siftdown_loop_heap_ok [OF wo])
  show "length heap < length (heap @ [item])" by simp
  show "\<forall>i. 0 < i \<and> i < length (heap @ [item]) \<and> i \<noteq> length heap \<longrightarrow>
          \<not> lt ((heap @ [item]) ! i) ((heap @ [item]) ! ((i - 1) div 2))"
  proof (intro allI impI)
    fix i assume i: "0 < i \<and> i < length (heap @ [item]) \<and> i \<noteq> length heap"
    then have "i < length heap" "(i - 1) div 2 < length heap" by auto
    then show "\<not> lt ((heap @ [item]) ! i) ((heap @ [item]) ! ((i - 1) div 2))"
      using ok i by (simp add: nth_append heap_ok_def)
  qed
  show "\<not> lt ((heap @ [item]) ! length heap) ((heap @ [item]) ! length heap)"
    by (rule weak_order_refl [OF wo])
  show "0 < length heap \<longrightarrow> (\<forall>i. 0 < i \<and> i < length (heap @ [item]) \<and> (i - 1) div 2 = length heap \<longrightarrow>
          \<not> lt ((heap @ [item]) ! i) ((heap @ [item]) ! ((length heap - 1) div 2)))"
    by auto
qed

subsection \<open>The heap order under pops\<close>

lemma parent_eq_iff:
  "0 < i \<Longrightarrow> (i - 1) div 2 = pos \<longleftrightarrow> i = 2 * pos + 1 \<or> i = 2 * pos + 2" for i pos :: nat
  by presburger

lemma siftup_loop_heap_ok:
  assumes wo: "weak_order lt"
  shows "pos < length heap \<Longrightarrow>
    (\<forall>i. 0 < i \<and> i < length heap \<and> (i - 1) div 2 \<noteq> pos \<longrightarrow>
        \<not> lt (heap ! i) (heap ! ((i - 1) div 2))) \<Longrightarrow>
    (0 < pos \<longrightarrow> (\<forall>i. 0 < i \<and> i < length heap \<and> (i - 1) div 2 = pos \<longrightarrow>
        \<not> lt (heap ! i) (heap ! ((pos - 1) div 2)))) \<Longrightarrow>
    siftup_loop lt heap (length heap) pos = (heap1, pos1) \<Longrightarrow>
    pos1 < length heap1 \<and> length heap1 \<le> 2 * pos1 + 1 \<and> heap_ok lt heap1"
proof (induction "length heap - pos" arbitrary: heap pos rule: less_induct)
  case less
  note a = less.prems(2) and c = less.prems(3)
  show ?case
  proof (cases "2 * pos + 1 < length heap")
    case False
    then have "siftup_loop lt heap (length heap) pos = (heap, pos)"
      by (subst siftup_loop.simps) (simp add: Let_def)
    then have e: "heap1 = heap" "pos1 = pos" using less.prems(4) by simp_all
    have "\<not> lt (heap ! i) (heap ! ((i - 1) div 2))" if "0 < i" "i < length heap" for i
    proof -
      have "(i - 1) div 2 \<noteq> pos" using that False by (auto simp: parent_eq_iff)
      then show ?thesis using a [rule_format, of i] that by simp
    qed
    then show ?thesis using e False less.prems(1) by (simp add: heap_ok_def)
  next
    case True
    define cp where "cp = (if 2 * pos + 2 < length heap \<and> \<not> lt (heap ! (2 * pos + 1)) (heap ! (2 * pos + 2))
                            then 2 * pos + 2 else 2 * pos + 1)"
    define heap2 where "heap2 = heap[pos := heap ! cp]"
    have cp: "cp < length heap" "pos < cp" "0 < cp" "(cp - 1) div 2 = pos"
      using True by (auto simp: cp_def)
    have eq: "siftup_loop lt heap (length heap) pos = siftup_loop lt heap2 (length heap2) cp"
      using True by (subst siftup_loop.simps) (simp add: Let_def cp_def heap2_def)
    have len: "length heap2 = length heap" by (simp add: heap2_def)
    have nth: "heap2 ! j = (if j = pos then heap ! cp else heap ! j)" if "j < length heap" for j
      using that by (simp add: heap2_def nth_list_update)
    have sibling: "\<not> lt (heap ! i) (heap ! cp)"
      if i: "0 < i" "i < length heap" "(i - 1) div 2 = pos" for i
    proof -
      from i have "i = 2 * pos + 1 \<or> i = 2 * pos + 2" using parent_eq_iff [of i pos] by blast
      then show ?thesis
      proof
        assume i1: "i = 2 * pos + 1"
        show ?thesis
        proof (cases "cp = 2 * pos + 1")
          case True
          then show ?thesis using i1 weak_order_refl [OF wo] by simp
        next
          case False
          then have "cp = 2 * pos + 2" "\<not> lt (heap ! (2 * pos + 1)) (heap ! (2 * pos + 2))"
            by (auto simp: cp_def split: if_splits)
          then show ?thesis using i1 by simp
        qed
      next
        assume i2: "i = 2 * pos + 2"
        show ?thesis
        proof (cases "cp = 2 * pos + 2")
          case True
          then show ?thesis using i2 weak_order_refl [OF wo] by simp
        next
          case False
          then have "cp = 2 * pos + 1" "lt (heap ! (2 * pos + 1)) (heap ! (2 * pos + 2))"
            using i(2) i2 by (auto simp: cp_def split: if_splits)
          then show ?thesis using i2 weak_order_asym [OF wo] by simp
        qed
      qed
    qed
    have a2: "\<not> lt (heap2 ! i) (heap2 ! ((i - 1) div 2))"
      if i: "0 < i" "i < length heap2" "(i - 1) div 2 \<noteq> cp" for i
    proof -
      have il: "i < length heap" "(i - 1) div 2 < length heap" "(i - 1) div 2 \<noteq> i"
        using i len by auto
      show ?thesis
      proof (cases "i = pos")
        case True
        then have "\<not> lt (heap ! cp) (heap ! ((pos - 1) div 2))"
          using c [rule_format, of cp] cp i by simp
        then show ?thesis using True il by (simp add: nth)
      next
        case ne: False
        show ?thesis
        proof (cases "(i - 1) div 2 = pos")
          case True
          then show ?thesis using sibling [OF i(1) il(1)] il ne by (simp add: nth)
        next
          case False
          then show ?thesis using a [rule_format, of i] i il ne by (simp add: nth)
        qed
      qed
    qed
    have c2: "\<not> lt (heap2 ! i) (heap2 ! ((cp - 1) div 2))"
      if i: "0 < i" "i < length heap2" "(i - 1) div 2 = cp" for i
    proof -
      have il: "i < length heap" "i \<noteq> pos" using i len cp by auto
      have "(i - 1) div 2 \<noteq> pos" using i(3) cp(2) by simp
      then have "\<not> lt (heap ! i) (heap ! ((i - 1) div 2))"
        using a [rule_format, of i] i il by simp
      then show ?thesis using il i(3) cp less.prems(1) by (simp add: nth)
    qed
    show ?thesis
    proof (rule less.hyps)
      show "length heap2 - cp < length heap - pos" using cp len by simp
      show "cp < length heap2" using cp len by simp
      show "\<forall>i. 0 < i \<and> i < length heap2 \<and> (i - 1) div 2 \<noteq> cp \<longrightarrow>
              \<not> lt (heap2 ! i) (heap2 ! ((i - 1) div 2))"
        using a2 by blast
      show "0 < cp \<longrightarrow> (\<forall>i. 0 < i \<and> i < length heap2 \<and> (i - 1) div 2 = cp \<longrightarrow>
              \<not> lt (heap2 ! i) (heap2 ! ((cp - 1) div 2)))"
        using c2 by blast
      show "siftup_loop lt heap2 (length heap2) cp = (heap1, pos1)"
        using eq less.prems(4) by simp
    qed
  qed
qed

lemma siftup_heap_ok:
  assumes wo: "weak_order lt" and ne: "heap \<noteq> []"
    and a: "\<forall>i. 0 < i \<and> i < length heap \<and> (i - 1) div 2 \<noteq> 0 \<longrightarrow>
              \<not> lt (heap ! i) (heap ! ((i - 1) div 2))"
  shows "heap_ok lt (siftup lt heap 0)"
proof -
  obtain heap1 pos1 where l: "siftup_loop lt heap (length heap) 0 = (heap1, pos1)"
    by (cases "siftup_loop lt heap (length heap) 0")
  have "0 < length heap" using ne by simp
  from siftup_loop_heap_ok [OF wo this a _ l]
  have h: "pos1 < length heap1" "length heap1 \<le> 2 * pos1 + 1" "heap_ok lt heap1" by simp_all
  let ?h2 = "heap1[pos1 := heap ! 0]"
  have "heap_ok lt (siftdown_loop lt ?h2 0 (?h2 ! pos1) pos1)"
  proof (rule siftdown_loop_heap_ok [OF wo])
    show "pos1 < length ?h2" using h(1) by simp
    show "\<forall>i. 0 < i \<and> i < length ?h2 \<and> i \<noteq> pos1 \<longrightarrow> \<not> lt (?h2 ! i) (?h2 ! ((i - 1) div 2))"
    proof (intro allI impI)
      fix i assume i: "0 < i \<and> i < length ?h2 \<and> i \<noteq> pos1"
      then have "(i - 1) div 2 \<noteq> pos1" using h(2) by (auto simp: parent_eq_iff)
      moreover have "\<not> lt (heap1 ! i) (heap1 ! ((i - 1) div 2))"
        using h(3) i by (simp add: heap_ok_def)
      ultimately show "\<not> lt (?h2 ! i) (?h2 ! ((i - 1) div 2))"
        using i by (simp add: nth_list_update)
    qed
    show "\<not> lt (?h2 ! pos1) (?h2 ! pos1)" by (rule weak_order_refl [OF wo])
    show "0 < pos1 \<longrightarrow> (\<forall>i. 0 < i \<and> i < length ?h2 \<and> (i - 1) div 2 = pos1 \<longrightarrow>
            \<not> lt (?h2 ! i) (?h2 ! ((pos1 - 1) div 2)))"
      using h(2) by (auto simp: parent_eq_iff)
  qed
  then show ?thesis
    by (simp add: siftup_def l siftdown_def Let_def)
qed

lemma heappop_heap_ok:
  assumes wo: "weak_order lt" and ok: "heap_ok lt heap"
    and pop: "heappop lt heap = Inr (a, heap')"
  shows "heap_ok lt heap' \<and> (\<forall>b \<in> set heap. \<not> lt b a)"
proof -
  have ne: "heap \<noteq> []" using pop by (auto simp: heappop_def)
  have a0: "a = heap ! 0"
    using pop ne by (cases heap rule: rev_cases)
      (auto simp: heappop_def Let_def nth_append split: if_splits)
  have min: "\<forall>b \<in> set heap. \<not> lt b a"
    using heap_ok_min [OF wo ok] a0 by (auto simp: in_set_conv_nth)
  have "heap_ok lt heap'"
  proof (cases "butlast heap = []")
    case True
    then have "heap' = []" using pop ne by (auto simp: heappop_def Let_def)
    then show ?thesis by (simp add: heap_ok_def)
  next
    case False
    let ?h = "(butlast heap)[0 := last heap]"
    have h': "heap' = siftup lt ?h 0" using pop ne False by (auto simp: heappop_def Let_def)
    have "heap_ok lt (siftup lt ?h 0)"
    proof (rule siftup_heap_ok [OF wo])
      show "?h \<noteq> []" using False by simp
      show "\<forall>i. 0 < i \<and> i < length ?h \<and> (i - 1) div 2 \<noteq> 0 \<longrightarrow> \<not> lt (?h ! i) (?h ! ((i - 1) div 2))"
      proof (intro allI impI)
        fix i assume i: "0 < i \<and> i < length ?h \<and> (i - 1) div 2 \<noteq> 0"
        then have il: "i < length heap - 1" "(i - 1) div 2 < length heap - 1" by auto
        then have "\<not> lt (heap ! i) (heap ! ((i - 1) div 2))"
          using ok i by (simp add: heap_ok_def)
        then show "\<not> lt (?h ! i) (?h ! ((i - 1) div 2))"
          using i il by (simp add: nth_list_update nth_butlast)
      qed
    qed
    then show ?thesis using h' by simp
  qed
  then show ?thesis using min by simp
qed

subsection \<open>The oracle returns the least cost\<close>

lemma cost_lt_asym: "cost_lt a b \<Longrightarrow> \<not> cost_lt b a"
  by (cases a; cases b) simp_all

lemma cost_lt_negtrans: "\<not> cost_lt b a \<Longrightarrow> \<not> cost_lt c b \<Longrightarrow> \<not> cost_lt c a"
  by (cases a; cases b; cases c) simp_all

lemma weak_order_Node_lt: "weak_order Node_lt"
  unfolding weak_order_def Node_lt_def using cost_lt_asym cost_lt_negtrans by blast

lemma weak_order_tuple_lt: "weak_order tuple_lt"
  unfolding weak_order_def tuple_lt_def by auto

lemma tuple_lt_fst: "\<not> tuple_lt a b \<Longrightarrow> fst b \<le> fst a"
  unfolding tuple_lt_def by auto

lemma relax_pure_heap_ok:
  "heap_ok tuple_lt (fst st) \<Longrightarrow> heap_ok tuple_lt (fst (relax_pure grid c0 p st d))"
  by (simp add: relax_pure_def Let_def heappush_heap_ok [OF weak_order_tuple_lt])

lemma foldl_relax_heap_ok:
  "heap_ok tuple_lt (fst st) \<Longrightarrow> heap_ok tuple_lt (fst (foldl (relax_pure grid c0 p) st moves))"
  by (induction moves rule: rev_induct) (simp_all add: relax_pure_heap_ok)

lemma is_walk_snoc:
  assumes "is_walk grid s t (xs @ [x])" "xs \<noteq> []"
  shows "is_walk grid s (last xs) xs" "step grid (last xs) x" "t = x"
    "walk_cost grid (xs @ [x]) = walk_cost grid xs + cell grid x"
  using assms
  by (auto simp: is_walk_def walk_cost_def successively_append_iff)

lemma is_walk_single: "is_walk grid s t [x] \<Longrightarrow> x = s \<and> t = s"
  by (auto simp: is_walk_def)

lemma walk_cost_nonneg:
  assumes nn: "nonneg grid"
  shows "is_walk grid s t l \<Longrightarrow> 0 \<le> walk_cost grid l"
proof (induction l arbitrary: t rule: rev_induct)
  case Nil
  then show ?case by (simp add: is_walk_def)
next
  case (snoc x xs)
  show ?case
  proof (cases "xs = []")
    case True
    then show ?thesis by (simp add: walk_cost_def)
  next
    case False
    from is_walk_snoc [OF snoc.prems False] snoc.IH nonneg_step [OF nn]
    show ?thesis by fastforce
  qed
qed

lemma oracle_frontier:
  assumes inv: "oinv grid s e queue visited" and nn: "nonneg grid"
  shows "is_walk grid s t l \<Longrightarrow>
     (\<exists>ent \<in> set queue. fst ent \<le> walk_cost grid l) \<or>
     (\<exists>c \<le> walk_cost grid l. visited t = Some c \<and> t \<noteq> e \<and>
        (\<forall>u. step grid t u \<longrightarrow> (\<exists>c'. visited u = Some c' \<and> c' \<le> c + cell grid u)))"
proof (induction l arbitrary: t rule: rev_induct)
  case Nil
  then show ?case by (simp add: is_walk_def)
next
  case (snoc x xs)
  have i2: "\<exists>c \<le> 0. visited s = Some c"
    and i3: "\<forall>v c. visited v = Some c \<longrightarrow>
         (c, v) \<in> set queue \<or>
         (v \<noteq> e \<and> (\<forall>u. step grid v u \<longrightarrow> (\<exists>c'. visited u = Some c' \<and> c' \<le> c + cell grid u)))"
    using inv unfolding oinv_def by blast+
  have settle: "(\<exists>ent \<in> set queue. fst ent \<le> w) \<or>
     (\<exists>c \<le> w. visited v = Some c \<and> v \<noteq> e \<and>
        (\<forall>u. step grid v u \<longrightarrow> (\<exists>c'. visited u = Some c' \<and> c' \<le> c + cell grid u)))"
    if "visited v = Some c" "c \<le> w" for v c w
  proof -
    from i3 [rule_format, OF that(1)] show ?thesis
    proof
      assume "(c, v) \<in> set queue"
      then have "\<exists>ent \<in> set queue. fst ent \<le> w"
        using that(2) by (intro bexI [of _ "(c, v)"]) simp_all
      then show ?thesis by blast
    next
      assume "v \<noteq> e \<and> (\<forall>u. step grid v u \<longrightarrow> (\<exists>c'. visited u = Some c' \<and> c' \<le> c + cell grid u))"
      then show ?thesis using that by blast
    qed
  qed
  show ?case
  proof (cases "xs = []")
    case True
    then have "t = s" "walk_cost grid (xs @ [x]) = 0"
      using is_walk_single [of grid s t x] snoc.prems by (simp_all add: walk_cost_def)
    then show ?thesis using i2 settle by metis
  next
    case False
    note w = is_walk_snoc [OF snoc.prems False]
    have mono: "walk_cost grid xs \<le> walk_cost grid (xs @ [x])"
      using w(4) nonneg_step [OF nn w(2)] by simp
    from snoc.IH [OF w(1)] show ?thesis
    proof
      assume "\<exists>ent \<in> set queue. fst ent \<le> walk_cost grid xs"
      then show ?thesis using mono by fastforce
    next
      assume "\<exists>c \<le> walk_cost grid xs. visited (last xs) = Some c \<and> last xs \<noteq> e \<and>
        (\<forall>u. step grid (last xs) u \<longrightarrow> (\<exists>c'. visited u = Some c' \<and> c' \<le> c + cell grid u))"
      then obtain c c' where "c \<le> walk_cost grid xs" "visited x = Some c'" "c' \<le> c + cell grid x"
        using w(2) by blast
      then have "visited t = Some c'" "c' \<le> walk_cost grid (xs @ [x])"
        using w(3,4) by simp_all
      then show ?thesis by (rule settle)
    qed
  qed
qed

lemma find_optimal_cost_loop_optimal:
  assumes "find_optimal_cost_loop grid e queue visited = Some r"
  shows "rect grid \<longrightarrow> nonneg grid \<longrightarrow> oinv grid s e queue visited \<longrightarrow> heap_ok tuple_lt queue \<longrightarrow>
         (\<forall>c l. r = Inr (Num c) \<longrightarrow> is_walk grid s e l \<longrightarrow> c \<le> walk_cost grid l)"
  using assms
proof (induction rule: find_optimal_cost_loop.raw_induct [rotated 1, consumes 1, case_names step])
  case (step loop grid e queue visited r)
  show ?case
  proof (intro impI allI)
    fix c l
    assume rect: "rect grid" and nn: "nonneg grid" and inv: "oinv grid s e queue visited"
      and ok: "heap_ok tuple_lt queue" and r: "r = Inr (Num c)" and l: "is_walk grid s e l"
    have ne: "queue \<noteq> []" using step(2) r by (auto split: if_splits)
    then obtain ent queue1 where pop0: "heappop tuple_lt queue = Inr (ent, queue1)"
      using heappop_nonempty by blast
    obtain c0 x y where ent: "ent = (c0, (x, y))" by (cases ent) auto
    note pop = pop0 [unfolded ent]
    from heappop_heap_ok [OF weak_order_tuple_lt ok pop]
    have ok1: "heap_ok tuple_lt queue1" and min: "\<forall>b \<in> set queue. \<not> tuple_lt b (c0, (x, y))"
      by simp_all
    show "c \<le> walk_cost grid l"
    proof (cases "(x, y) = e")
      case True
      have "c = c0" using step(2) r ne pop unfolding True [symmetric] by simp
      from oracle_frontier [OF inv nn l] obtain b where "b \<in> set queue" "fst b \<le> walk_cost grid l"
        by blast
      moreover from this(1) min have "c0 \<le> fst b" using tuple_lt_fst by fastforce
      ultimately show ?thesis using \<open>c = c0\<close> by simp
    next
      case False
      define st2 where "st2 = foldl (relax_pure grid c0 (x, y)) (queue1, visited) possible_moves"
      have rel: "relax_moves grid c0 x y possible_moves (queue1, visited) = Inr st2"
        unfolding st2_def by (rule relax_moves_rect [OF rect]) simp
      have rec: "loop grid e (fst st2) (snd st2) = Some r"
        using step(2) ne pop False rel by (cases st2) simp
      have "heap_ok tuple_lt (fst st2)"
        unfolding st2_def using ok1 by (intro foldl_relax_heap_ok) simp
      with oinv_step [OF inv pop False st2_def] step(1) [OF rec] rect nn r l
      show ?thesis by blast
    qed
  qed
qed

subsection \<open>The frontier of the engine\<close>

lemma pos_cells_nonneg: "pos_cells grid \<Longrightarrow> nonneg grid"
  unfolding pos_cells_def nonneg_def by fastforce

lemma pos_cells_step:
  assumes "pos_cells grid" "step grid p u"
  shows "1 \<le> cell grid u"
proof -
  from assms(2) have ib: "in_bounds grid u" and ne: "cell grid u \<noteq> - 1"
    by (simp_all add: step_def)
  have "nat (fst u) < length grid" "nat (snd u) < length (grid ! nat (fst u))"
    using ib unfolding in_bounds_def by linarith+
  then have "grid ! nat (fst u) \<in> set grid" "cell grid u \<in> set (grid ! nat (fst u))"
    by (simp_all add: cell_def)
  then show ?thesis using assms(1) ne unfolding pos_cells_def by blast
qed

lemma manhattan_consistent: "manhattan p u = 1 \<Longrightarrow> manhattan p e \<le> 1 + manhattan u e"
  unfolding manhattan_def by linarith

lemma heuristic_manhattan: "heuristic e m = manhattan (node_x m, node_y m) e"
  by (simp add: heuristic_def manhattan_def)

lemma node_good_f:
  assumes "node_good grid s e m" "node_g m = Num gm"
  shows "\<exists>f. node_f m = Num f \<and> f \<le> gm + manhattan (node_x m, node_y m) e"
  using assms unfolding node_good_def by auto

lemma astar_frontier:
  assumes inv: "ainv grid s e open_set closed" and pc: "pos_cells grid"
  shows "is_walk grid s t l \<Longrightarrow> t \<notin> closed \<Longrightarrow>
     \<exists>m \<in> set open_set. \<exists>f. node_f m = Num f \<and> f \<le> walk_cost grid l + manhattan t e"
proof (induction l arbitrary: t rule: rev_induct)
  case Nil
  then show ?case by (simp add: is_walk_def)
next
  case (snoc x xs)
  have j1: "\<forall>n \<in> set open_set. node_good grid s e n"
    and j3: "s \<in> closed \<or> (\<exists>n \<in> set open_set. (node_x n, node_y n) = s \<and> node_g n = Num 0)"
    and j4: "\<forall>v \<in> closed. \<forall>l u. is_walk grid s v l \<longrightarrow> step grid v u \<longrightarrow>
         u \<in> closed \<or>
         (\<exists>m \<in> set open_set. (node_x m, node_y m) = u \<and>
            (\<exists>gm. node_g m = Num gm \<and> gm \<le> walk_cost grid l + cell grid u))"
    using inv unfolding ainv_def by blast+
  have via: "\<exists>m \<in> set open_set. \<exists>f. node_f m = Num f \<and> f \<le> w + manhattan t e"
    if "m \<in> set open_set" "(node_x m, node_y m) = t" "node_g m = Num gm" "gm \<le> w" for m gm w
  proof -
    from node_good_f [OF j1 [rule_format, OF that(1)] that(3)] that(2)
    obtain f where "node_f m = Num f" "f \<le> gm + manhattan t e" by auto
    then show ?thesis using that(1,4) by (intro bexI [of _ m]) auto
  qed
  show ?case
  proof (cases "xs = []")
    case True
    then have t: "t = s" "walk_cost grid (xs @ [x]) = 0"
      using is_walk_single [of grid s t x] snoc.prems by (simp_all add: walk_cost_def)
    with j3 snoc.prems(2) obtain n where "n \<in> set open_set" "(node_x n, node_y n) = t"
      "node_g n = Num 0" by auto
    from via [OF this, of 0] t show ?thesis by simp
  next
    case False
    note w = is_walk_snoc [OF snoc.prems(1) False]
    have c1: "1 \<le> cell grid x" using pos_cells_step [OF pc w(2)] .
    show ?thesis
    proof (cases "last xs \<in> closed")
      case True
      from j4 [rule_format, OF True w(1) w(2)] snoc.prems(2) w(3)
      obtain m gm where "m \<in> set open_set" "(node_x m, node_y m) = t" "node_g m = Num gm"
        "gm \<le> walk_cost grid xs + cell grid x" by auto
      from via [OF this] w(4) show ?thesis by simp
    next
      case False
      from snoc.IH [OF w(1) False] obtain m f where
        m: "m \<in> set open_set" "node_f m = Num f" "f \<le> walk_cost grid xs + manhattan (last xs) e"
        by blast
      have "manhattan (last xs) e \<le> 1 + manhattan x e"
        using w(2) by (intro manhattan_consistent) (simp add: step_def)
      then have "f \<le> walk_cost grid (xs @ [x]) + manhattan t e"
        using m(3) c1 w(3,4) by simp
      then show ?thesis using m(1,2) by blast
    qed
  qed
qed

lemma popped_optimal:
  assumes inv: "ainv grid s e open_set closed" and pc: "pos_cells grid"
    and ok: "heap_ok Node_lt open_set"
    and pop: "heappop Node_lt open_set = Inr (cur, open1)"
    and nc: "(node_x cur, node_y cur) \<notin> closed"
    and l: "is_walk grid s (node_x cur, node_y cur) l"
  shows "\<exists>g. node_g cur = Num g \<and> g \<le> walk_cost grid l"
proof -
  have cur_in: "cur \<in> set open_set" using set_heappop [OF pop] by simp
  have min: "\<forall>b \<in> set open_set. \<not> Node_lt b cur"
    using heappop_heap_ok [OF weak_order_Node_lt ok pop] by simp
  have "node_good grid s e cur" using inv cur_in unfolding ainv_def by blast
  then obtain lc fc where lc: "is_walk grid s (node_x cur, node_y cur) lc"
    "node_g cur = Num (walk_cost grid lc)" "node_f cur = Num fc"
    "fc = walk_cost grid lc + manhattan (node_x cur, node_y cur) e \<or> walk_cost grid lc = 0"
    unfolding node_good_def by auto
  from astar_frontier [OF inv pc l nc] obtain m f where
    m: "m \<in> set open_set" "node_f m = Num f"
       "f \<le> walk_cost grid l + manhattan (node_x cur, node_y cur) e" by blast
  have "\<not> Node_lt m cur" using min m(1) by blast
  then have "fc \<le> f" using m(2) lc(3) by (simp add: Node_lt_def)
  moreover have "0 \<le> walk_cost grid l"
    using walk_cost_nonneg [OF pos_cells_nonneg [OF pc] l] .
  ultimately have "walk_cost grid lc \<le> walk_cost grid l"
    using lc(4) m(3) by auto
  then show ?thesis using lc(2) by simp
qed

lemma visit_correct_heap_ok:
  "heap_ok Node_lt open_set \<Longrightarrow> heap_ok Node_lt (visit_correct e closed cur open_set m)"
  by (simp add: visit_correct_def Let_def heappush_heap_ok [OF weak_order_Node_lt])

lemma foldl_visit_correct_heap_ok:
  "heap_ok Node_lt open_set \<Longrightarrow>
   heap_ok Node_lt (foldl (visit_correct e closed cur) open_set nbs)"
  by (induction nbs arbitrary: open_set) (simp_all add: visit_correct_heap_ok)

subsection \<open>The engine's invariant\<close>

lemma ainv_step:
  assumes rect: "rect grid" and pc: "pos_cells grid"
    and inv: "ainv grid s e open_set closed"
    and ok: "heap_ok Node_lt open_set"
    and pop: "heappop Node_lt open_set = Inr (cur, open1)"
    and ne: "(node_x cur, node_y cur) \<noteq> e"
    and nbs: "get_neighbors grid cur = Inr nbs"
    and closed1: "closed1 = insert (node_x cur, node_y cur) closed"
    and open2: "open2 = foldl (visit_correct e closed1 cur) open1 nbs"
  shows "ainv grid s e open2 closed1"
proof -
  let ?P = "filter (pushed_correct closed1 cur) nbs"
  have j1: "\<forall>n \<in> set open_set. node_good grid s e n"
    and j2: "e \<notin> closed"
    and j3: "s \<in> closed \<or> (\<exists>n \<in> set open_set. (node_x n, node_y n) = s \<and> node_g n = Num 0)"
    and j4: "\<forall>v \<in> closed. \<forall>l u. is_walk grid s v l \<longrightarrow> step grid v u \<longrightarrow>
         u \<in> closed \<or>
         (\<exists>m \<in> set open_set. (node_x m, node_y m) = u \<and>
            (\<exists>gm. node_g m = Num gm \<and> gm \<le> walk_cost grid l + cell grid u))"
    using inv unfolding ainv_def by blast+
  have set_open: "set open_set = insert cur (set open1)"
    using set_heappop [OF pop] .
  have "mset open2 = mset open1 + mset (map (child_correct e cur) ?P)"
    by (simp add: open2 foldl_visit_correct_mset)
  then have set_open2: "set open2 = set open1 \<union> child_correct e cur ` set ?P"
    by (metis set_mset_mset set_mset_union set_map)
  have "node_good grid s e cur" using j1 set_open by simp
  then obtain lc where lc: "is_walk grid s (node_x cur, node_y cur) lc"
    "node_g cur = Num (walk_cost grid lc)"
    unfolding node_good_def by auto
  have child_g: "node_g (child_correct e cur m) = Num (walk_cost grid lc + node_cost m)" for m
    by (simp add: child_correct_def lc(2))
  have keep: "u \<in> closed1 \<or>
         (\<exists>m \<in> set open2. (node_x m, node_y m) = u \<and> (\<exists>gm. node_g m = Num gm \<and> gm \<le> w))"
    if "m \<in> set open_set" "(node_x m, node_y m) = u" "node_g m = Num gm" "gm \<le> w" for m u gm w
  proof (cases "m = cur")
    case True
    then show ?thesis using that(2) closed1 by auto
  next
    case False
    then have "m \<in> set open2" using that(1) set_open set_open2 by auto
    then show ?thesis using that(2,3,4) by blast
  qed
  have c1: "node_good grid s e n" if "n \<in> set open2" for n
  proof -
    from that set_open2 consider "n \<in> set open1"
      | m where "m \<in> set nbs" "n = child_correct e cur m" by auto
    then show ?thesis
    proof cases
      case 1
      then show ?thesis using j1 set_open by simp
    next
      case 2
      from get_neighbors_sound [OF nbs 2(1)]
      have st: "step grid (node_x cur, node_y cur) (node_x m, node_y m)"
        and cm: "cell grid (node_x m, node_y m) = node_cost m" by simp_all
      from is_walk_extend [OF lc(1) st]
      have w: "is_walk grid s (node_x m, node_y m) (lc @ [(node_x m, node_y m)])"
        "walk_cost grid (lc @ [(node_x m, node_y m)]) = walk_cost grid lc + node_cost m"
        using cm by simp_all
      have xy: "(node_x n, node_y n) = (node_x m, node_y m)"
        by (simp add: 2(2) child_correct_def)
      have g: "node_g n = Num (walk_cost grid lc + node_cost m)"
        by (simp add: 2(2) child_g)
      have f: "node_f n = Num (walk_cost grid lc + node_cost m + manhattan (node_x m, node_y m) e)"
        by (simp add: 2(2) child_correct_def lc(2) heuristic_manhattan)
      show ?thesis
        unfolding node_good_def xy
        using w g f by (intro exI [of _ "lc @ [(node_x m, node_y m)]"]) simp
    qed
  qed
  have c2: "e \<notin> closed1" using j2 ne closed1 by auto
  have c3: "s \<in> closed1 \<or> (\<exists>n \<in> set open2. (node_x n, node_y n) = s \<and> node_g n = Num 0)"
  proof (cases "s \<in> closed")
    case True
    then show ?thesis using closed1 by simp
  next
    case False
    with j3 obtain n where n: "n \<in> set open_set" "(node_x n, node_y n) = s" "node_g n = Num 0"
      by blast
    show ?thesis
    proof (cases "n = cur")
      case True
      then show ?thesis using n(2) closed1 by auto
    next
      case False
      then have "n \<in> set open2" using n(1) set_open set_open2 by auto
      then show ?thesis using n(2,3) by blast
    qed
  qed
  have c4: "u \<in> closed1 \<or>
         (\<exists>m \<in> set open2. (node_x m, node_y m) = u \<and>
            (\<exists>gm. node_g m = Num gm \<and> gm \<le> walk_cost grid l + cell grid u))"
    if v: "v \<in> closed1" and l: "is_walk grid s v l" and st: "step grid v u" for v l u
  proof (cases "v \<in> closed")
    case True
    from j4 [rule_format, OF True l st] show ?thesis
    proof
      assume "u \<in> closed" then show ?thesis using closed1 by simp
    next
      assume "\<exists>m \<in> set open_set. (node_x m, node_y m) = u \<and>
            (\<exists>gm. node_g m = Num gm \<and> gm \<le> walk_cost grid l + cell grid u)"
      then obtain m gm where "m \<in> set open_set" "(node_x m, node_y m) = u" "node_g m = Num gm"
        "gm \<le> walk_cost grid l + cell grid u" by blast
      then show ?thesis by (rule keep)
    qed
  next
    case False
    then have vc: "v = (node_x cur, node_y cur)" using v closed1 by simp
    from popped_optimal [OF inv pc ok pop] False l vc lc(2)
    have opt: "walk_cost grid lc \<le> walk_cost grid l" by auto
    from get_neighbors_complete [OF rect nbs] st vc obtain m where
      m: "m \<in> set nbs" "(node_x m, node_y m) = u" "node_cost m = cell grid u" "node_g m = PosInf"
      by blast
    show ?thesis
    proof (cases "u \<in> closed1")
      case True then show ?thesis by simp
    next
      case False
      then have "pushed_correct closed1 cur m"
        using m lc(2) by (simp add: pushed_correct_def)
      then have "child_correct e cur m \<in> set open2"
        using m(1) set_open2 by auto
      moreover have "(node_x (child_correct e cur m), node_y (child_correct e cur m)) = u"
        using m(2) by (simp add: child_correct_def)
      moreover have "node_g (child_correct e cur m) = Num (walk_cost grid lc + cell grid u)"
        using child_g m(3) by simp
      ultimately show ?thesis using opt by (intro disjI2 bexI [of _ "child_correct e cur m"]) auto
    qed
  qed
  show ?thesis
    unfolding ainv_def using c1 c2 c3 c4 by blast
qed

lemma astar_correct_loop_optimal:
  assumes "astar_correct_loop grid e open_set closed = Some r"
  shows "rect grid \<longrightarrow> pos_cells grid \<longrightarrow> ainv grid s e open_set closed \<longrightarrow>
         heap_ok Node_lt open_set \<longrightarrow>
         (\<forall>path c. r = Inr (Some path, c) \<longrightarrow>
            (\<exists>g l0. c = Num g \<and> is_walk grid s e l0 \<and> walk_cost grid l0 = g \<and>
                    (\<forall>l. is_walk grid s e l \<longrightarrow> g \<le> walk_cost grid l)))"
  using assms
proof (induction rule: astar_correct_loop.raw_induct [rotated 1, consumes 1, case_names step])
  case (step loop grid e open_set closed r)
  show ?case
  proof (intro impI allI)
    fix path c
    assume rect: "rect grid" and pc: "pos_cells grid" and inv: "ainv grid s e open_set closed"
      and ok: "heap_ok Node_lt open_set" and r: "r = Inr (Some path, c)"
    have nem: "open_set \<noteq> []" using step(2) r by (auto split: if_splits)
    then obtain cur open1 where pop: "heappop Node_lt open_set = Inr (cur, open1)"
      using heappop_nonempty by blast
    have ok1: "heap_ok Node_lt open1"
      using heappop_heap_ok [OF weak_order_Node_lt ok pop] by simp
    show "\<exists>g l0. c = Num g \<and> is_walk grid s e l0 \<and> walk_cost grid l0 = g \<and>
                    (\<forall>l. is_walk grid s e l \<longrightarrow> g \<le> walk_cost grid l)"
    proof (cases "(node_x cur, node_y cur) = e")
      case True
      have c: "c = node_g cur" using step(2) r nem pop True by simp
      have "cur \<in> set open_set" using set_heappop [OF pop] by simp
      then have "node_good grid s e cur" using inv unfolding ainv_def by blast
      then obtain lc where lc: "is_walk grid s e lc" "node_g cur = Num (walk_cost grid lc)"
        unfolding node_good_def True by auto
      have nc: "(node_x cur, node_y cur) \<notin> closed" using inv True unfolding ainv_def by simp
      have "walk_cost grid lc \<le> walk_cost grid l" if "is_walk grid s e l" for l
        using popped_optimal [OF inv pc ok pop nc] that True lc(2) by auto
      then show ?thesis using c lc by blast
    next
      case False
      obtain nbs where nbs: "get_neighbors grid cur = Inr nbs"
        using get_neighbors_rect [OF rect] by blast
      define closed1 where "closed1 = insert (node_x cur, node_y cur) closed"
      define open2 where "open2 = foldl (visit_correct e closed1 cur) open1 nbs"
      have rec: "loop grid e open2 closed1 = Some r"
        using step(2) nem pop False nbs by (simp add: Let_def closed1_def open2_def)
      have "heap_ok Node_lt open2"
        unfolding open2_def using ok1 by (rule foldl_visit_correct_heap_ok)
      with ainv_step [OF rect pc inv ok pop False nbs closed1_def open2_def]
        step(1) [OF rec] rect pc r
      show ?thesis by blast
    qed
  qed
qed

subsection \<open>The engine and the oracle agree\<close>

lemma heap_ok_single: "heap_ok lt [a]"
  by (simp add: heap_ok_def)

lemma ainv_init: "ainv grid s e [start_node_of s c0] {}"
proof -
  let ?n = "start_node_of s c0"
  have xy: "(node_x ?n, node_y ?n) = s" and g: "node_g ?n = Num 0" and f: "node_f ?n = Num 0"
    by (simp_all add: start_node_of_def)
  have h: "0 \<le> manhattan s e" by (simp add: manhattan_def)
  have "is_walk grid s s [s] \<and> node_g ?n = Num (walk_cost grid [s]) \<and>
        (\<exists>f. node_f ?n = Num f \<and> f \<le> walk_cost grid [s] + manhattan s e) \<and>
        (node_f ?n = Num (walk_cost grid [s] + manhattan s e) \<or> walk_cost grid [s] = 0)"
    using is_walk_start [of grid s] g f h by simp
  then have good: "node_good grid s e ?n"
    unfolding node_good_def xy by (rule exI)
  show ?thesis
    unfolding ainv_def
  proof (intro conjI)
    show "\<forall>n \<in> set [?n]. node_good grid s e n" using good by simp
    show "e \<notin> {}" by simp
    show "s \<in> {} \<or> (\<exists>n \<in> set [?n]. (node_x n, node_y n) = s \<and> node_g n = Num 0)"
      using xy g by simp
    show "\<forall>v \<in> {}. \<forall>l u. is_walk grid s v l \<longrightarrow> step grid v u \<longrightarrow>
         u \<in> {} \<or>
         (\<exists>m \<in> set [?n]. (node_x m, node_y m) = u \<and>
            (\<exists>gm. node_g m = Num gm \<and> gm \<le> walk_cost grid l + cell grid u))"
      by blast
  qed
qed

lemma astar_correct_optimal:
  assumes rect: "rect grid" and pc: "pos_cells grid" and s: "in_bounds grid s"
    and reach: "reachable grid s e"
  shows "\<exists>path g. astar_correct grid s e = Some (Inr (Some path, Num g)) \<and>
           (\<exists>l0. is_walk grid s e l0 \<and> walk_cost grid l0 = g) \<and>
           (\<forall>l. is_walk grid s e l \<longrightarrow> g \<le> walk_cost grid l)"
proof -
  from astar_correct_total [OF rect s, of e] obtain r where
    r: "astar_correct grid s e = Some (Inr r)"
       "fst r = None \<longrightarrow> snd r = PosInf \<and> \<not> reachable grid s e"
    by (elim exE conjE)
  from r(2) reach obtain path where "fst r = Some path" by (cases "fst r") auto
  then have "r = (Some path, snd r)" by (cases r) simp
  with r(1) obtain c where
    a: "astar_correct grid s e = Some (Inr (Some path, c))" by metis
  let ?n = "start_node_of s (grid ! nat (fst s) ! nat (snd s))"
  have "astar_correct_loop grid e [?n] {} = Some (Inr (Some path, c))"
    using a by (simp add: astar_correct_def grid_at_in_bounds [OF s])
  from astar_correct_loop_optimal [OF this, of s, rule_format, OF rect pc ainv_init heap_ok_single refl]
  obtain g l0 where "c = Num g" "is_walk grid s e l0" "walk_cost grid l0 = g"
    "\<forall>l. is_walk grid s e l \<longrightarrow> g \<le> walk_cost grid l"
    by (elim exE conjE)
  then show ?thesis using a by blast
qed

lemma find_optimal_cost_optimal:
  assumes rect: "rect grid" and nn: "nonneg grid" and reach: "reachable grid s e"
  shows "\<exists>c. find_optimal_cost grid s e = Some (Inr (Num c)) \<and>
           (\<exists>l0. is_walk grid s e l0 \<and> walk_cost grid l0 = c) \<and>
           (\<forall>l. is_walk grid s e l \<longrightarrow> c \<le> walk_cost grid l)"
proof -
  from find_optimal_cost_total [OF rect nn, of s e] obtain r where
    r: "find_optimal_cost grid s e = Some (Inr r)"
       "r = PosInf \<longrightarrow> \<not> reachable grid s e"
       "\<forall>c. r = Num c \<longrightarrow> (\<exists>l. is_walk grid s e l \<and> walk_cost grid l = c)"
    by (elim exE conjE)
  from r(2) reach obtain c where rc: "r = Num c" by (cases r) auto
  have o: "find_optimal_cost grid s e = Some (Inr (Num c))"
    and w: "\<exists>l0. is_walk grid s e l0 \<and> walk_cost grid l0 = c"
    using r(1,3) rc by simp_all
  then have lp: "find_optimal_cost_loop grid e [(0, s)] [s \<mapsto> 0] = Some (Inr (Num c))"
    by (simp add: find_optimal_cost_def)
  have "c \<le> walk_cost grid l" if "is_walk grid s e l" for l
    by (rule find_optimal_cost_loop_optimal [OF lp, of s, rule_format,
          OF rect nn oinv_init heap_ok_single refl that])
  then have "\<forall>l. is_walk grid s e l \<longrightarrow> c \<le> walk_cost grid l" by blast
  then show ?thesis using o w by blast
qed

text \<open>
  C1. For every rectangular grid whose cells are \<open>-1\<close> or cost at least 1, and every
  in-bounds start and end such that the end can be reached from the start by moves to
  4-adjacent passable cells, \<open>astar_correct\<close> returns a path with the cost that
  \<open>find_optimal_cost\<close> returns, and that cost is the least cost of a walk from start to
  end.
\<close>

theorem astar_cost_equals_oracle:
  assumes "rect grid" and "pos_cells grid" and "in_bounds grid s" and "in_bounds grid e"
    and "reachable grid s e"
  shows "\<exists>path c. astar_correct grid s e = Some (Inr (Some path, Num c)) \<and>
           find_optimal_cost grid s e = Some (Inr (Num c)) \<and>
           (\<forall>l. is_walk grid s e l \<longrightarrow> c \<le> walk_cost grid l)"
proof -
  from astar_correct_optimal [OF assms(1,2,3,5)] obtain path g l1 where
    a: "astar_correct grid s e = Some (Inr (Some path, Num g))"
      "is_walk grid s e l1" "walk_cost grid l1 = g"
      "\<forall>l. is_walk grid s e l \<longrightarrow> g \<le> walk_cost grid l" by blast
  from find_optimal_cost_optimal [OF assms(1) pos_cells_nonneg [OF assms(2)] assms(5)]
  obtain c l2 where
    o: "find_optimal_cost grid s e = Some (Inr (Num c))"
      "is_walk grid s e l2" "walk_cost grid l2 = c"
      "\<forall>l. is_walk grid s e l \<longrightarrow> c \<le> walk_cost grid l" by blast
  have "g = c" using a(2,3,4) o(2,3,4) by (meson order_antisym)
  then show ?thesis using a o by blast
qed

theorem astar_cost_equals_oracle_witness:
  "rect [[1, 5], [1, 1]] \<and> pos_cells [[1, 5], [1, 1]] \<and>
   in_bounds [[1, 5], [1, 1]] (0, 0) \<and> in_bounds [[1, 5], [1, 1]] (1, 1) \<and>
   reachable [[1, 5], [1, 1]] (0, 0) (1, 1) \<and>
   (\<exists>path c. astar_correct [[1, 5], [1, 1]] (0, 0) (1, 1) = Some (Inr (Some path, Num c)) \<and>
      find_optimal_cost [[1, 5], [1, 1]] (0, 0) (1, 1) = Some (Inr (Num c)))"
proof -
  have h1: "rect [[1, 5], [1, 1]]" by (simp add: rect_def)
  have h2: "pos_cells [[1, 5], [1, 1]]" by (simp add: pos_cells_def)
  have h3: "in_bounds [[1, 5], [1, 1]] (0, 0)" by (simp add: in_bounds_def)
  have h4: "in_bounds [[1, 5], [1, 1]] (1, 1)" by (simp add: in_bounds_def)
  have "is_walk [[1, 5], [1, 1]] (0, 0) (1, 1) [(0, 0), (1, 0), (1, 1)]"
    by (simp add: is_walk_def step_def manhattan_def in_bounds_def cell_def)
  then have h5: "reachable [[1, 5], [1, 1]] (0, 0) (1, 1)"
    unfolding reachable_walk by blast
  show ?thesis
    using h1 h2 h3 h4 h5 astar_cost_equals_oracle [OF h1 h2 h3 h4 h5] by blast
qed

end
